theory Spec2Isabelle
  imports Main
begin

text \<open>
  A shallow embedding of \<^verbatim>\<open>src/05-objects-tasks.js\<close>: the \<open>Rectangle\<close> constructor,
  the \<open>cssSelectorBuilder\<close> object with its fragment-adding methods, \<open>combine\<close>
  and \<open>stringify\<close>, and the JSON helpers \<open>getJSON\<close> and \<open>fromJSON\<close>. The builder is one mutable object shared by all chains; its
  fields are modelled as a record that every method takes and returns, and a thrown
  error is a value that carries the state the builder is left in.
\<close>

section \<open>The rectangle object\<close>

text \<open>
  \<^verbatim>\<open>function Rectangle(width, height)\<close> stores its two arguments in the fields
  \<open>width\<close> and \<open>height\<close> of the new object and installs the arrow function
  \<^verbatim>\<open>() => this.width * this.height\<close> as \<open>getArea\<close>. The arrow function reads the
  fields of the object it was created for, so it is a function of that object.
  The number type is left open: the code only multiplies.
\<close>

record 'n rectangle =
  width :: 'n
  height :: 'n

definition Rectangle :: "'n \<Rightarrow> 'n \<Rightarrow> 'n rectangle" where
  "Rectangle w h = \<lparr>width = w, height = h\<rparr>"

definition getArea :: "('n::times) rectangle \<Rightarrow> 'n" where
  "getArea this = width this * height this"

section \<open>The selector builder\<close>

subsection \<open>State of the shared builder object\<close>

text \<open>
  \<open>cssSelectorBuilder\<close> is one object literal whose methods mutate its own fields and
  return \<open>this\<close>. The fields are the state; every method takes the state and
  returns the new one. \<open>arr\<close> holds strings and \<open>null\<close> placeholders (\<open>None\<close>).
\<close>

record builder =
  arr :: "string option list"
  comb :: "string list"
  isCombo :: bool
  elCount :: nat
  idCount :: nat
  psCount :: nat

definition cssSelectorBuilder :: builder where
  "cssSelectorBuilder =
     \<lparr>arr = [], comb = [], isCombo = False, elCount = 0, idCount = 0, psCount = 0\<rparr>"

definition errDoubleElem :: string where
  "errDoubleElem =
     ''Element, id and pseudo-element should not occur more then one time inside the selector''"

definition errWrongElemOrder :: string where
  "errWrongElemOrder =
     ''Selector parts should be arranged in the following order: element, id, class, attribute, pseudo-class, pseudo-element''"

text \<open>
  A thrown \<^verbatim>\<open>new Error(str)\<close> carries its message; \<^verbatim>\<open>new Error()\<close> has the empty
  message. A method that throws leaves the builder in the state it had at the
  \<^verbatim>\<open>throw\<close>, so the outcome of a call is either the error together with that state
  (\<open>Inl\<close>), or the normal result (\<open>Inr\<close>).
\<close>

datatype js_error = Error string

type_synonym 'a outcome = "(js_error \<times> builder) + 'a"

abbreviation DuplicateViolation :: js_error where
  "DuplicateViolation \<equiv> Error errDoubleElem"

abbreviation OrderViolation :: js_error where
  "OrderViolation \<equiv> Error errWrongElemOrder"

abbreviation CompositionError :: js_error where
  "CompositionError \<equiv> Error []"

subsection \<open>Helpers of the object\<close>

definition counterReset :: "builder \<Rightarrow> builder" where
  "counterReset this = this\<lparr>elCount := 0, idCount := 0, psCount := 0\<rparr>"

definition arrsReset :: "builder \<Rightarrow> builder" where
  "arrsReset this = this\<lparr>comb := [], arr := []\<rparr>"

definition errorHandler :: "string \<Rightarrow> builder \<Rightarrow> 'a outcome" where
  "errorHandler str this = Inl (Error str, arrsReset (counterReset this))"

text \<open>
  \<^verbatim>\<open>this.arr[this.arr.length - 1]\<close>: \<open>undefined\<close> on the empty array, otherwise the
  last entry (a string, or \<open>null\<close>). Both \<open>undefined\<close> and \<open>null\<close> are \<open>None\<close>.
\<close>

definition lastEl_of :: "builder \<Rightarrow> string option" where
  "lastEl_of this = (if arr this = [] then None else last (arr this))"

text \<open>Truthiness of \<open>lastEl\<close>: \<open>undefined\<close>, \<open>null\<close> and the empty string are falsy.\<close>

fun truthy :: "string option \<Rightarrow> bool" where
  "truthy None = False"
| "truthy (Some v) = (v \<noteq> [])"

text \<open>
  \<^verbatim>\<open>lastEl.match(/^[cs]/)\<close> for a character class \<open>cs\<close>: the first character of the
  string is one of \<open>cs\<close>. It is only evaluated behind \<^verbatim>\<open>lastEl &&\<close>.
\<close>

fun match_class :: "string \<Rightarrow> string option \<Rightarrow> bool" where
  "match_class cs (Some (c # v)) = (c \<in> set cs)"
| "match_class cs other = False"

text \<open>\<^verbatim>\<open>lastEl.match(/^::/)\<close>: the string starts with two colons.\<close>

fun match_colons :: "string option \<Rightarrow> bool" where
  "match_colons (Some (c # d # v)) = (c = CHR '':'' \<and> d = CHR '':'')"
| "match_colons other = False"

subsection \<open>The fragment-adding methods\<close>

definition element :: "string \<Rightarrow> builder \<Rightarrow> builder outcome" where
  "element value this =
     (let lastEl = lastEl_of this in
      if truthy lastEl \<and> \<not> match_class ''.#:[ '' lastEl
        then errorHandler errDoubleElem this
      else if truthy lastEl \<and> elCount this = 0 \<and> match_class ''#[:'' lastEl
        then errorHandler errWrongElemOrder this
      else
        let this1 =
          (if truthy (lastEl_of this)
             then counterReset (this\<lparr>arr := arr this @ [None, Some value], isCombo := True\<rparr>)
             else this\<lparr>arr := arr this @ [Some value]\<rparr>)
        in Inr (this1\<lparr>elCount := elCount this1 + 1\<rparr>))"

definition id_sel :: "string \<Rightarrow> builder \<Rightarrow> builder outcome" where
  "id_sel value this =
     (if idCount this \<noteq> 0 then errorHandler errDoubleElem this
      else
        let lastEl = lastEl_of this in
        if truthy lastEl \<and> match_class ''.[:'' lastEl
          then errorHandler errWrongElemOrder this
        else Inr (this\<lparr>arr := arr this @ [Some (''#'' @ value)],
                         idCount := idCount this + 1\<rparr>))"

definition class_sel :: "string \<Rightarrow> builder \<Rightarrow> builder outcome" where
  "class_sel value this =
     (let lastEl = lastEl_of this in
      if truthy lastEl \<and> match_class ''[:'' lastEl
        then errorHandler errWrongElemOrder this
      else Inr (this\<lparr>arr := arr this @ [Some (''.'' @ value)]\<rparr>))"

definition attr :: "string \<Rightarrow> builder \<Rightarrow> builder outcome" where
  "attr value this =
     (let lastEl = lastEl_of this in
      if truthy lastEl \<and> match_class '':'' lastEl
        then errorHandler errWrongElemOrder this
      else Inr (this\<lparr>arr := arr this @ [Some (''['' @ value @ '']'')]\<rparr>))"

definition pseudoClass :: "string \<Rightarrow> builder \<Rightarrow> builder outcome" where
  "pseudoClass value this =
     (let lastEl = lastEl_of this in
      if truthy lastEl \<and> match_colons lastEl
        then errorHandler errWrongElemOrder this
      else Inr (this\<lparr>arr := arr this @ [Some ('':'' @ value)]\<rparr>))"

definition pseudoElement :: "string \<Rightarrow> builder \<Rightarrow> builder outcome" where
  "pseudoElement value this =
     (if psCount this \<noteq> 0 then errorHandler errDoubleElem this
      else Inr (this\<lparr>arr := arr this @ [Some (''::'' @ value)],
                       psCount := psCount this + 1\<rparr>))"

subsection \<open>combine and stringify\<close>

text \<open>
  \<^verbatim>\<open>combine(selector1, combinator)\<close> declares two parameters; a third argument of a
  call is dropped by the language. The selector arguments are whatever the caller
  passes (in the intended use, the builder object itself, returned by the chains).
\<close>

definition combine :: "'s \<Rightarrow> string \<Rightarrow> 's \<Rightarrow> builder \<Rightarrow> builder" where
  "combine selector1 combinator selector2 this =
     this\<lparr>comb := comb this @ ['' '' @ combinator @ '' '']\<rparr>"

text \<open>
  \<^verbatim>\<open>arr.indexOf(null)\<close>: the index of the first \<open>null\<close>, or \<open>-1\<close>.
\<close>

fun indexOf :: "'a list \<Rightarrow> 'a \<Rightarrow> int" where
  "indexOf [] x = - 1"
| "indexOf (y # ys) x =
     (if y = x then 0 else (let i = indexOf ys x in if i < 0 then - 1 else i + 1))"

text \<open>
  \<^verbatim>\<open>arr[i] = el\<close> for an index inside the array replaces the entry. For \<open>i = -1\<close> it
  creates a property named \<open>-1\<close> on the array object: no entry changes, and neither
  \<open>indexOf\<close>, \<open>filter\<close> nor \<open>join\<close> sees it.
\<close>

definition assign :: "'a list \<Rightarrow> int \<Rightarrow> 'a \<Rightarrow> 'a list" where
  "assign a i el = (if 0 \<le> i \<and> i < int (length a) then a[nat i := el] else a)"

text \<open>\<^verbatim>\<open>arr.join('')\<close>: \<open>null\<close> entries contribute the empty string.\<close>

fun join :: "string option list \<Rightarrow> string" where
  "join [] = []"
| "join (None # xs) = join xs"
| "join (Some v # xs) = v @ join xs"

text \<open>
  The tail of \<open>stringify\<close>: join the fragments, clear both arrays and the counters,
  return the string.
\<close>

definition join_and_reset :: "builder \<Rightarrow> string \<times> builder" where
  "join_and_reset this =
     (let res = join (arr this)
      in (res, counterReset (this\<lparr>comb := [], arr := []\<rparr>)))"

text \<open>
  In composite mode the pending combinators are reversed (in place) and each one is
  written over the first remaining \<open>null\<close>; on a count mismatch \<^verbatim>\<open>new Error()\<close> is
  thrown before anything is changed.
\<close>

definition stringify :: "builder \<Rightarrow> (string \<times> builder) outcome" where
  "stringify this =
     (if isCombo this then
        (if length (comb this) = length (filter (\<lambda>el. el = None) (arr this))
           then Inr (join_and_reset
                  (this\<lparr>comb := rev (comb this),
                        arr := foldl (\<lambda>a el. assign a (indexOf a None) (Some el))
                                 (arr this) (rev (comb this)),
                        isCombo := False\<rparr>))
           else Inl (Error [], this))
      else Inr (join_and_reset this))"

subsection \<open>Method chains\<close>

text \<open>
  A chain \<^verbatim>\<open>builder.m1(v1).m2(v2)...\<close> is the list of its fragment-adding calls. Every
  method returns \<open>this\<close>, so the next call runs on the state the previous one left;
  a throw ends the chain.
\<close>

datatype call =
    ELEMENT string
  | ID string
  | CLASS string
  | ATTR string
  | PSEUDO_CLASS string
  | PSEUDO_ELEMENT string

fun invoke :: "call \<Rightarrow> builder \<Rightarrow> builder outcome" where
  "invoke (ELEMENT v) this = element v this"
| "invoke (ID v) this = id_sel v this"
| "invoke (CLASS v) this = class_sel v this"
| "invoke (ATTR v) this = attr v this"
| "invoke (PSEUDO_CLASS v) this = pseudoClass v this"
| "invoke (PSEUDO_ELEMENT v) this = pseudoElement v this"

fun chain :: "call list \<Rightarrow> builder \<Rightarrow> builder outcome" where
  "chain [] this = Inr this"
| "chain (c # cs) this =
     (case invoke c this of Inl e \<Rightarrow> Inl e | Inr this' \<Rightarrow> chain cs this')"

text \<open>\<^verbatim>\<open>builder.<chain>.stringify()\<close> on the builder as the module exports it.\<close>

definition build :: "call list \<Rightarrow> (string \<times> builder) outcome" where
  "build cs =
     (case chain cs cssSelectorBuilder of Inl e \<Rightarrow> Inl e | Inr this \<Rightarrow> stringify this)"

text \<open>
  \<^verbatim>\<open>builder.combine(builder.<a>, c, builder.<b>).stringify()\<close>: the arguments are
  evaluated left to right on the one shared object, then \<open>combine\<close> runs, then
  \<open>stringify\<close>. Both selector arguments are the builder object itself.
\<close>

definition combined :: "call list \<Rightarrow> string \<Rightarrow> call list \<Rightarrow> (string \<times> builder) outcome" where
  "combined a c b =
     (case chain a cssSelectorBuilder of Inl e \<Rightarrow> Inl e
      | Inr this1 \<Rightarrow>
          (case chain b this1 of Inl e \<Rightarrow> Inl e
           | Inr this2 \<Rightarrow> stringify (combine this2 c this2 this2)))"

text \<open>
  \<^verbatim>\<open>builder.combine(builder.<x>, c1, builder.combine(builder.<y>, c2, builder.<z>)).stringify()\<close>:
  the three chains run in the order \<open>x\<close>, \<open>y\<close>, \<open>z\<close>, then the inner \<open>combine\<close>
  records \<open>c2\<close>, then the outer one records \<open>c1\<close>.
\<close>

definition nested :: "call list \<Rightarrow> string \<Rightarrow> call list \<Rightarrow> string \<Rightarrow> call list
    \<Rightarrow> (string \<times> builder) outcome" where
  "nested x c1 y c2 z =
     (case chain x cssSelectorBuilder of Inl e \<Rightarrow> Inl e
      | Inr this1 \<Rightarrow>
          (case chain y this1 of Inl e \<Rightarrow> Inl e
           | Inr this2 \<Rightarrow>
               (case chain z this2 of Inl e \<Rightarrow> Inl e
                | Inr this3 \<Rightarrow>
                    (let this4 = combine this3 c2 this3 this3;
                         this5 = combine this4 c1 this4 this4
                     in stringify this5))))"

subsection \<open>The vocabulary of the specification\<close>

text \<open>
  The fragment of a call with its category prefix: element unprefixed, \<open>#id\<close>,
  \<open>.class\<close>, \<open>[attr]\<close>, \<open>:pseudoClass\<close>, \<open>::pseudoElement\<close>; and the selector text of a
  chain, the concatenation of its fragments in call order.
\<close>

fun prefixed :: "call \<Rightarrow> string" where
  "prefixed (ELEMENT v) = v"
| "prefixed (ID v) = ''#'' @ v"
| "prefixed (CLASS v) = ''.'' @ v"
| "prefixed (ATTR v) = ''['' @ v @ '']''"
| "prefixed (PSEUDO_CLASS v) = '':'' @ v"
| "prefixed (PSEUDO_ELEMENT v) = ''::'' @ v"

definition selector_text :: "call list \<Rightarrow> string" where
  "selector_text cs = concat (map prefixed cs)"

text \<open>
  The fixed category order element, id, class, attribute, pseudo-class,
  pseudo-element, and the chains in a valid ordering: categories never decrease, and
  element, id and pseudo-element occur at most once.
\<close>

fun rank :: "call \<Rightarrow> nat" where
  "rank (ELEMENT v) = 0"
| "rank (ID v) = 1"
| "rank (CLASS v) = 2"
| "rank (ATTR v) = 3"
| "rank (PSEUDO_CLASS v) = 4"
| "rank (PSEUDO_ELEMENT v) = 5"

definition occurrences :: "nat \<Rightarrow> call list \<Rightarrow> nat" where
  "occurrences r cs = length (filter (\<lambda>c. rank c = r) cs)"

definition valid_order :: "call list \<Rightarrow> bool" where
  "valid_order cs =
     (sorted (map rank cs) \<and> occurrences 0 cs \<le> 1 \<and> occurrences 1 cs \<le> 1
        \<and> occurrences 5 cs \<le> 1)"

text \<open>
  The builder recognises the category of the last fragment by its first characters.
  An element name that starts with \<open>.\<close>, \<open>[\<close> or \<open>:\<close>, or a pseudo-class name that
  starts with \<open>:\<close>, is taken for a fragment of another category; the other values are
  plain.
\<close>

fun plain :: "call \<Rightarrow> bool" where
  "plain (ELEMENT v) = (\<not> match_class ''.[:'' (Some v))"
| "plain (PSEUDO_CLASS v) = (\<not> match_class '':'' (Some v))"
| "plain c = True"

text \<open>
  The placeholder filling in the words of the specification: the \<open>k\<close>-th placeholder
  slot receives the \<open>k\<close>-th token of the given token sequence.
\<close>

fun fill_slots :: "string option list \<Rightarrow> string list \<Rightarrow> string option list" where
  "fill_slots [] ts = []"
| "fill_slots (Some v # xs) ts = Some v # fill_slots xs ts"
| "fill_slots (None # xs) [] = None # fill_slots xs []"
| "fill_slots (None # xs) (t # ts) = Some t # fill_slots xs ts"

text \<open>A chain that begins with an \<open>element\<close> call.\<close>

fun element_first :: "call list \<Rightarrow> bool" where
  "element_first (ELEMENT v # cs) = True"
| "element_first cs = False"

section \<open>The JSON helpers\<close>

text \<open>
  \<open>getJSON\<close> and \<open>fromJSON\<close> are one-line calls of the built-in functions
  \<^verbatim>\<open>JSON.stringify\<close>, \<^verbatim>\<open>JSON.parse\<close> and \<^verbatim>\<open>Object.setPrototypeOf\<close>. The built-ins
  are modelled after their definitions in ECMA-262 (sections JSON.stringify,
  QuoteJSONString, JSON.parse, Object.setPrototypeOf) and the JSON grammar of
  ECMA-404.

  A JavaScript string is a sequence of UTF-16 code units; a code unit is a natural
  number. \<open>str\<close> turns a literal of ASCII characters into such a string.
  The code units that the definitions name: \<open>0x22\<close> quotation mark, \<open>0x5C\<close>
  backslash, \<open>0x2F\<close> slash, \<open>0x2C\<close> comma, \<open>0x3A\<close> colon, \<open>0x5B\<close> and \<open>0x5D\<close>
  brackets, \<open>0x7B\<close> and \<open>0x7D\<close> braces, \<open>0x2D\<close> minus, \<open>0x2B\<close> plus, \<open>0x2E\<close>
  point, \<open>0x30\<close> to \<open>0x39\<close> digits, \<open>0x65\<close> and \<open>0x45\<close> the letters e and E,
  \<open>0x62 0x66 0x6E 0x72 0x74 0x75\<close> the letters b, f, n, r, t, u.
\<close>

type_synonym js_string = "nat list"

definition str :: "string \<Rightarrow> js_string" where
  "str s = map of_char s"

text \<open>
  The values that JSON texts denote: \<open>null\<close>, booleans, numbers, strings, arrays,
  and objects as the list of their own enumerable string-keyed properties in
  enumeration order. The type \<open>'n\<close> of numbers is left open; the two conversions
  between numbers and their texts are parameters (\<open>nt\<close>, the text
  \<^verbatim>\<open>JSON.stringify\<close> writes for a number, and \<open>nv\<close>, the number a JSON number literal
  denotes), so that no property of floating-point arithmetic is built in.
\<close>

datatype 'n json =
    JNull
  | JBool bool
  | JNumber 'n
  | JString js_string
  | JArray "'n json list"
  | JObject "(js_string \<times> 'n json) list"

text \<open>
  The two kinds of exception the built-ins throw.
\<close>

datatype js_exception = SyntaxError | TypeError

text \<open>
  QuoteJSONString: the two-character escapes of the table, \<^verbatim>\<open>\uXXXX\<close> with four
  lower-case hexadecimal digits for the other code units below \<open>0x20\<close> and for
  surrogates that are not part of a pair, and every other code unit as it is. A
  leading surrogate followed by a trailing surrogate is one code point and is
  written unescaped.
\<close>

definition hex_digit :: "nat \<Rightarrow> nat" where
  "hex_digit d = (if d < 10 then 0x30 + d else 0x61 + (d - 10))"

definition unicode_escape :: "nat \<Rightarrow> js_string" where
  "unicode_escape c =
     [0x5C, 0x75, hex_digit (c div 4096 mod 16), hex_digit (c div 256 mod 16),
      hex_digit (c div 16 mod 16), hex_digit (c mod 16)]"

definition is_lead :: "nat \<Rightarrow> bool" where
  "is_lead c = (0xD800 \<le> c \<and> c \<le> 0xDBFF)"

definition is_trail :: "nat \<Rightarrow> bool" where
  "is_trail c = (0xDC00 \<le> c \<and> c \<le> 0xDFFF)"

definition escape_unit :: "nat \<Rightarrow> js_string" where
  "escape_unit c =
     (if c = 0x08 then [0x5C, 0x62]
      else if c = 0x09 then [0x5C, 0x74]
      else if c = 0x0A then [0x5C, 0x6E]
      else if c = 0x0C then [0x5C, 0x66]
      else if c = 0x0D then [0x5C, 0x72]
      else if c = 0x22 then [0x5C, 0x22]
      else if c = 0x5C then [0x5C, 0x5C]
      else if c < 0x20 then unicode_escape c
      else [c])"

fun quote_units :: "js_string \<Rightarrow> js_string" where
  "quote_units [] = []"
| "quote_units (c # cs) =
     (if is_lead c then
        (case cs of
           [] \<Rightarrow> unicode_escape c
         | d # ds \<Rightarrow>
             if is_trail d then c # d # quote_units ds
             else unicode_escape c @ quote_units cs)
      else if is_trail c then unicode_escape c @ quote_units cs
      else escape_unit c @ quote_units cs)"

definition QuoteJSONString :: "js_string \<Rightarrow> js_string" where
  "QuoteJSONString s = [0x22] @ quote_units s @ [0x22]"

text \<open>
  \<^verbatim>\<open>JSON.stringify(value)\<close> without replacer and indentation: \<open>null\<close>, \<open>true\<close>,
  \<open>false\<close>, the number's text, the quoted string; an array as its elements between
  brackets and an object as its \<open>"key":value\<close> members between braces, both
  separated by commas with no white space.
\<close>

fun JSON_stringify :: "('n \<Rightarrow> js_string) \<Rightarrow> 'n json \<Rightarrow> js_string"
  and elements_text :: "('n \<Rightarrow> js_string) \<Rightarrow> 'n json list \<Rightarrow> js_string"
  and members_text :: "('n \<Rightarrow> js_string) \<Rightarrow> (js_string \<times> 'n json) list \<Rightarrow> js_string"
where
  "JSON_stringify nt JNull = str ''null''"
| "JSON_stringify nt (JBool b) = (if b then str ''true'' else str ''false'')"
| "JSON_stringify nt (JNumber n) = nt n"
| "JSON_stringify nt (JString s) = QuoteJSONString s"
| "JSON_stringify nt (JArray vs) = [0x5B] @ elements_text nt vs"
| "JSON_stringify nt (JObject kvs) = [0x7B] @ members_text nt kvs"
| "elements_text nt [] = [0x5D]"
| "elements_text nt (v # vs) =
     JSON_stringify nt v @ (if vs = [] then [] else [0x2C]) @ elements_text nt vs"
| "members_text nt [] = [0x7D]"
| "members_text nt ((k, v) # kvs) =
     QuoteJSONString k @ [0x3A] @ JSON_stringify nt v
       @ (if kvs = [] then [] else [0x2C]) @ members_text nt kvs"

text \<open>
  \<^verbatim>\<open>JSON.parse(text)\<close>. White space is space, tab, line feed and carriage return and
  may surround every token.
\<close>

definition is_ws :: "nat \<Rightarrow> bool" where
  "is_ws c = (c = 0x20 \<or> c = 0x09 \<or> c = 0x0A \<or> c = 0x0D)"

definition skip_ws :: "js_string \<Rightarrow> js_string" where
  "skip_ws t = dropWhile is_ws t"

text \<open>
  The characters of a string after its opening quote, up to the closing quote: an
  unescaped quote ends the string, a backslash starts one of the escapes
  \<^verbatim>\<open>\" \\ \/ \b \f \n \r \t \uXXXX\<close> (hexadecimal digits of either case), a code
  unit below \<open>0x20\<close> is an error, every other code unit stands for itself. The
  result is the string and the rest of the text.
\<close>

definition hex_value :: "nat \<Rightarrow> nat option" where
  "hex_value h =
     (if 0x30 \<le> h \<and> h \<le> 0x39 then Some (h - 0x30)
      else if 0x61 \<le> h \<and> h \<le> 0x66 then Some (h - 0x61 + 10)
      else if 0x41 \<le> h \<and> h \<le> 0x46 then Some (h - 0x41 + 10)
      else None)"

definition decode4 :: "nat \<Rightarrow> nat \<Rightarrow> nat \<Rightarrow> nat \<Rightarrow> nat option" where
  "decode4 h1 h2 h3 h4 =
     (case (hex_value h1, hex_value h2, hex_value h3, hex_value h4) of
        (Some a, Some b, Some c, Some d) \<Rightarrow> Some (((a * 16 + b) * 16 + c) * 16 + d)
      | _ \<Rightarrow> None)"

definition unescape :: "nat \<Rightarrow> nat option" where
  "unescape e =
     (if e = 0x22 then Some 0x22
      else if e = 0x5C then Some 0x5C
      else if e = 0x2F then Some 0x2F
      else if e = 0x62 then Some 0x08
      else if e = 0x66 then Some 0x0C
      else if e = 0x6E then Some 0x0A
      else if e = 0x72 then Some 0x0D
      else if e = 0x74 then Some 0x09
      else None)"

fun parse_chars :: "js_string \<Rightarrow> (js_string \<times> js_string) option" where
  "parse_chars [] = None"
| "parse_chars (c # cs) =
     (if c = 0x22 then Some ([], cs)
      else if c = 0x5C then
        (case cs of
           [] \<Rightarrow> None
         | e # cs' \<Rightarrow>
             if e = 0x75 then
               (case cs' of
                  h1 # h2 # h3 # h4 # cs'' \<Rightarrow>
                    (case decode4 h1 h2 h3 h4 of
                       None \<Rightarrow> None
                     | Some u \<Rightarrow> map_option (\<lambda>(s, r). (u # s, r)) (parse_chars cs''))
                | _ \<Rightarrow> None)
             else
               (case unescape e of
                  None \<Rightarrow> None
                | Some u \<Rightarrow> map_option (\<lambda>(s, r). (u # s, r)) (parse_chars cs')))
      else if c < 0x20 then None
      else map_option (\<lambda>(s, r). (c # s, r)) (parse_chars cs))"

text \<open>
  Number literals: an optional minus sign, then \<open>0\<close> or a non-zero digit followed by
  digits, then optionally a point with at least one digit, then optionally \<open>e\<close> or
  \<open>E\<close>, an optional sign and at least one digit. A number token is followed by white
  space, a comma, a closing bracket or brace, or the end of the text, none of which
  can occur in a number; so the parser takes the longest run of number characters
  and checks it against the grammar.
\<close>

definition is_digit :: "nat \<Rightarrow> bool" where
  "is_digit c = (0x30 \<le> c \<and> c \<le> 0x39)"

definition is_num_char :: "nat \<Rightarrow> bool" where
  "is_num_char c = (is_digit c \<or> c = 0x2B \<or> c = 0x2D \<or> c = 0x2E \<or> c = 0x65 \<or> c = 0x45)"

definition exp_part :: "js_string \<Rightarrow> bool" where
  "exp_part t =
     (case t of
        [] \<Rightarrow> True
      | e # r \<Rightarrow>
          (e = 0x65 \<or> e = 0x45)
          \<and> (let ds = (case r of [] \<Rightarrow> [] | s # r' \<Rightarrow> if s = 0x2B \<or> s = 0x2D then r' else r)
             in ds \<noteq> [] \<and> list_all is_digit ds))"

definition frac_part :: "js_string \<Rightarrow> bool" where
  "frac_part t =
     (case t of
        p # d # r \<Rightarrow>
          if p = 0x2E then is_digit d \<and> exp_part (dropWhile is_digit r) else exp_part t
      | _ \<Rightarrow> exp_part t)"

definition int_part :: "js_string \<Rightarrow> bool" where
  "int_part t =
     (case t of
        [] \<Rightarrow> False
      | d # r \<Rightarrow>
          if d = 0x30 then frac_part r
          else is_digit d \<and> frac_part (dropWhile is_digit r))"

definition number_grammar :: "js_string \<Rightarrow> bool" where
  "number_grammar t =
     (case t of
        [] \<Rightarrow> False
      | m # r \<Rightarrow> if m = 0x2D then int_part r else int_part t)"

text \<open>
  The object built from the members of an object literal in text order: a member
  whose name occurred before overwrites the value of the earlier property, which
  keeps its place. (An engine enumerates properties whose names are array indices
  first; the model keeps the text order, which is the enumeration order whenever the
  text was written by \<open>JSON_stringify\<close>.)
\<close>

definition object_of :: "(js_string \<times> 'v) list \<Rightarrow> (js_string \<times> 'v) list" where
  "object_of kvs = foldl (\<lambda>obj (k, v). if k \<in> set (map fst obj)
       then map (\<lambda>(k', v'). if k' = k then (k', v) else (k', v')) obj
       else obj @ [(k, v)]) [] kvs"

text \<open>
  A string, a literal name or a number at the head of the text (white space already
  skipped); \<open>parse_key\<close> reads a member name and its colon, \<open>separator\<close> the comma or
  closing character after an element, \<open>closes\<close> the closing character of an empty
  array or object.
\<close>

definition parse_scalar :: "(js_string \<Rightarrow> 'n) \<Rightarrow> js_string \<Rightarrow> ('n json \<times> js_string) option" where
  "parse_scalar nv t =
     (case t of
        [] \<Rightarrow> None
      | c # r \<Rightarrow>
          if c = 0x22 then map_option (\<lambda>(s, r'). (JString s, r')) (parse_chars r)
          else if take 4 t = str ''null'' then Some (JNull, drop 4 t)
          else if take 4 t = str ''true'' then Some (JBool True, drop 4 t)
          else if take 5 t = str ''false'' then Some (JBool False, drop 5 t)
          else if c = 0x2D \<or> is_digit c then
            (let token = takeWhile is_num_char t in
             if number_grammar token
               then Some (JNumber (nv token), dropWhile is_num_char t)
               else None)
          else None)"

definition parse_key :: "js_string \<Rightarrow> (js_string \<times> js_string) option" where
  "parse_key t =
     (case skip_ws t of
        [] \<Rightarrow> None
      | q # r \<Rightarrow>
          if q = 0x22 then
            (case parse_chars r of
               None \<Rightarrow> None
             | Some (k, r1) \<Rightarrow>
                 (case skip_ws r1 of
                    [] \<Rightarrow> None
                  | col # r2 \<Rightarrow> if col = 0x3A then Some (k, r2) else None))
          else None)"

definition separator :: "nat \<Rightarrow> js_string \<Rightarrow> (bool \<times> js_string) option" where
  "separator close t =
     (case skip_ws t of
        [] \<Rightarrow> None
      | c # r \<Rightarrow>
          if c = 0x2C then Some (True, r)
          else if c = close then Some (False, r)
          else None)"

definition closes :: "nat \<Rightarrow> js_string \<Rightarrow> js_string option" where
  "closes close t =
     (case skip_ws t of
        [] \<Rightarrow> None
      | c # r \<Rightarrow> if c = close then Some r else None)"

text \<open>
  The recursive descent over values, array elements and object members. The
  argument after \<open>nv\<close> bounds the depth of the nested calls. A text is at least as
  long as the depth its parsing needs (every value, element and member takes a
  character of its own), so \<open>JSON_parse\<close> passes the length of the text plus one.
  \<open>None\<close> is a syntax error.
\<close>

fun parse_value :: "(js_string \<Rightarrow> 'n) \<Rightarrow> nat \<Rightarrow> js_string \<Rightarrow> ('n json \<times> js_string) option"
  and parse_elements :: "(js_string \<Rightarrow> 'n) \<Rightarrow> nat \<Rightarrow> js_string \<Rightarrow> ('n json list \<times> js_string) option"
  and parse_members :: "(js_string \<Rightarrow> 'n) \<Rightarrow> nat \<Rightarrow> js_string
        \<Rightarrow> ((js_string \<times> 'n json) list \<times> js_string) option"
where
  "parse_value nv 0 t = None"
| "parse_value nv (Suc n) t =
     (case skip_ws t of
        [] \<Rightarrow> None
      | c # r \<Rightarrow>
          if c = 0x7B then
            (case closes 0x7D r of
               Some r' \<Rightarrow> Some (JObject [], r')
             | None \<Rightarrow>
                 map_option (\<lambda>(kvs, r'). (JObject (object_of kvs), r')) (parse_members nv n r))
          else if c = 0x5B then
            (case closes 0x5D r of
               Some r' \<Rightarrow> Some (JArray [], r')
             | None \<Rightarrow> map_option (\<lambda>(vs, r'). (JArray vs, r')) (parse_elements nv n r))
          else parse_scalar nv (c # r))"
| "parse_elements nv 0 t = None"
| "parse_elements nv (Suc n) t =
     (case parse_value nv n t of
        None \<Rightarrow> None
      | Some (v, r) \<Rightarrow>
          (case separator 0x5D r of
             None \<Rightarrow> None
           | Some (again, r') \<Rightarrow>
               if again then map_option (\<lambda>(vs, r''). (v # vs, r'')) (parse_elements nv n r')
               else Some ([v], r')))"
| "parse_members nv 0 t = None"
| "parse_members nv (Suc n) t =
     (case parse_key t of
        None \<Rightarrow> None
      | Some (k, r) \<Rightarrow>
          (case parse_value nv n r of
             None \<Rightarrow> None
           | Some (v, r') \<Rightarrow>
               (case separator 0x7D r' of
                  None \<Rightarrow> None
                | Some (again, r'') \<Rightarrow>
                    if again then
                      map_option (\<lambda>(kvs, r3). ((k, v) # kvs, r3)) (parse_members nv n r'')
                    else Some ([(k, v)], r''))))"

definition JSON_parse :: "(js_string \<Rightarrow> 'n) \<Rightarrow> js_string \<Rightarrow> js_exception + 'n json" where
  "JSON_parse nv text =
     (case parse_value nv (Suc (length text)) text of
        None \<Rightarrow> Inl SyntaxError
      | Some (v, r) \<Rightarrow> if skip_ws r = [] then Inr v else Inl SyntaxError)"

text \<open>
  The JSON-serializable values: every number is written as a JSON number literal
  that denotes the same number again (for the numbers of the language, those that
  are finite and not \<open>-0\<close>), and no object has two properties of the same name. The
  second group of functions bounds the nested calls the parser needs for a value.
\<close>

fun json_ok :: "('n \<Rightarrow> js_string) \<Rightarrow> (js_string \<Rightarrow> 'n) \<Rightarrow> 'n json \<Rightarrow> bool"
  and elements_ok :: "('n \<Rightarrow> js_string) \<Rightarrow> (js_string \<Rightarrow> 'n) \<Rightarrow> 'n json list \<Rightarrow> bool"
  and members_ok :: "('n \<Rightarrow> js_string) \<Rightarrow> (js_string \<Rightarrow> 'n)
        \<Rightarrow> (js_string \<times> 'n json) list \<Rightarrow> bool"
where
  "json_ok nt nv JNull = True"
| "json_ok nt nv (JBool b) = True"
| "json_ok nt nv (JNumber n) =
     (number_grammar (nt n) \<and> list_all is_num_char (nt n) \<and> nv (nt n) = n)"
| "json_ok nt nv (JString s) = True"
| "json_ok nt nv (JArray vs) = elements_ok nt nv vs"
| "json_ok nt nv (JObject kvs) = members_ok nt nv kvs"
| "elements_ok nt nv [] = True"
| "elements_ok nt nv (v # vs) = (json_ok nt nv v \<and> elements_ok nt nv vs)"
| "members_ok nt nv [] = True"
| "members_ok nt nv ((k, v) # kvs) =
     (k \<notin> set (map fst kvs) \<and> json_ok nt nv v \<and> members_ok nt nv kvs)"

fun fuel_needed :: "'n json \<Rightarrow> nat"
  and elements_fuel :: "'n json list \<Rightarrow> nat"
  and members_fuel :: "(js_string \<times> 'n json) list \<Rightarrow> nat"
where
  "fuel_needed (JArray vs) = Suc (elements_fuel vs)"
| "fuel_needed (JObject kvs) = Suc (members_fuel kvs)"
| "fuel_needed v = Suc 0"
| "elements_fuel [] = 0"
| "elements_fuel (v # vs) = Suc (max (fuel_needed v) (elements_fuel vs))"
| "members_fuel [] = 0"
| "members_fuel ((k, v) # kvs) = Suc (max (fuel_needed v) (members_fuel kvs))"

text \<open>
  The characters a value text can begin with, and the texts before which a number
  token ends.
\<close>

definition value_start :: "nat \<Rightarrow> bool" where
  "value_start c =
     (c = 0x6E \<or> c = 0x74 \<or> c = 0x66 \<or> c = 0x22 \<or> c = 0x5B \<or> c = 0x7B \<or> c = 0x2D
        \<or> is_digit c)"

definition delimited :: "js_string \<Rightarrow> bool" where
  "delimited rest = (case rest of [] \<Rightarrow> True | c # r \<Rightarrow> \<not> is_num_char c)"

text \<open>
  \<^verbatim>\<open>Object.setPrototypeOf(O, proto)\<close>: a \<open>TypeError\<close> if \<open>O\<close> is \<open>null\<close> (or
  \<open>undefined\<close>, which \<open>JSON.parse\<close> never returns); a \<open>TypeError\<close> if \<open>proto\<close> is
  neither an object nor \<open>null\<close>; \<open>O\<close> itself, unchanged, if it is not an object; and
  otherwise \<open>O\<close> with its prototype set to \<open>proto\<close> (the objects \<open>JSON.parse\<close>
  creates are new and extensible, so setting the prototype succeeds). The argument
  \<open>proto\<close> is an object (identified by a value of type \<open>'p\<close>), \<open>null\<close>, or any
  other value.
\<close>

datatype 'p prototype = ProtoObject 'p | ProtoNull | NotAnObject

datatype ('n, 'p) js_result = WithPrototype "'n json" "'p prototype" | Primitive "'n json"

fun Object_setPrototypeOf :: "'n json \<Rightarrow> 'p prototype \<Rightarrow> js_exception + ('n, 'p) js_result" where
  "Object_setPrototypeOf JNull proto = Inl TypeError"
| "Object_setPrototypeOf obj NotAnObject = Inl TypeError"
| "Object_setPrototypeOf (JArray vs) proto = Inr (WithPrototype (JArray vs) proto)"
| "Object_setPrototypeOf (JObject kvs) proto = Inr (WithPrototype (JObject kvs) proto)"
| "Object_setPrototypeOf obj proto = Inr (Primitive obj)"

text \<open>
  The two functions of the source. The built-ins they call are arguments of the
  model: \<^verbatim>\<open>(obj) => JSON.stringify(obj)\<close> and
  \<^verbatim>\<open>(proto, json) => Object.setPrototypeOf(JSON.parse(json), proto)\<close>, where an
  exception of \<open>JSON.parse\<close> propagates before \<open>Object.setPrototypeOf\<close> is called.
\<close>

definition getJSON :: "('v \<Rightarrow> js_string) \<Rightarrow> 'v \<Rightarrow> js_string" where
  "getJSON host_stringify obj = host_stringify obj"

definition fromJSON :: "(js_string \<Rightarrow> js_exception + 'n json) \<Rightarrow> 'p prototype \<Rightarrow> js_string
    \<Rightarrow> js_exception + ('n, 'p) js_result" where
  "fromJSON host_parse proto json =
     (case host_parse json of Inl e \<Rightarrow> Inl e | Inr v \<Rightarrow> Object_setPrototypeOf v proto)"

text \<open>
  The values that are objects of the language: arrays and objects.
\<close>

fun is_object :: "'n json \<Rightarrow> bool" where
  "is_object (JArray vs) = True"
| "is_object (JObject kvs) = True"
| "is_object v = False"

text \<open>
  An instance of the two number conversions, for concrete examples: the natural
  numbers written in decimal digits, as the language writes the non-negative
  integers below \<open>10^21\<close>.
\<close>

fun decimal_text :: "nat \<Rightarrow> js_string" where
  "decimal_text n =
     (if n < 10 then [0x30 + n] else decimal_text (n div 10) @ [0x30 + n mod 10])"

definition decimal_value :: "js_string \<Rightarrow> nat" where
  "decimal_value t = foldl (\<lambda>a d. 10 * a + (d - 0x30)) 0 t"

section \<open>Basic facts about the methods\<close>

lemma chain_append:
  "chain (xs @ ys) this =
     (case chain xs this of Inl e \<Rightarrow> Inl e | Inr this' \<Rightarrow> chain ys this')"
  by (induction xs arbitrary: this) (auto split: sum.splits)

lemma lastEl_of_snoc [simp]: "arr this = xs @ [x] \<Longrightarrow> lastEl_of this = x"
  by (simp add: lastEl_of_def)

lemma lastEl_of_empty [simp]: "arr this = [] \<Longrightarrow> lastEl_of this = None"
  by (simp add: lastEl_of_def)

lemma lastEl_of_other_fields [simp]:
  "lastEl_of (this\<lparr>comb := a\<rparr>) = lastEl_of this"
  "lastEl_of (this\<lparr>isCombo := b\<rparr>) = lastEl_of this"
  "lastEl_of (this\<lparr>elCount := n\<rparr>) = lastEl_of this"
  "lastEl_of (this\<lparr>idCount := n\<rparr>) = lastEl_of this"
  "lastEl_of (this\<lparr>psCount := n\<rparr>) = lastEl_of this"
  by (simp_all add: lastEl_of_def)

lemma id_sel_pushes:
  "idCount this = 0 \<Longrightarrow> \<not> match_class ''.[:'' (lastEl_of this) \<Longrightarrow>
   id_sel v this = Inr (this\<lparr>arr := arr this @ [Some (''#'' @ v)], idCount := 1\<rparr>)"
  by (simp add: id_sel_def)

lemma class_sel_pushes:
  "\<not> match_class ''[:'' (lastEl_of this) \<Longrightarrow>
   class_sel v this = Inr (this\<lparr>arr := arr this @ [Some (''.'' @ v)]\<rparr>)"
  by (simp add: class_sel_def)

lemma attr_pushes:
  "\<not> match_class '':'' (lastEl_of this) \<Longrightarrow>
   attr v this = Inr (this\<lparr>arr := arr this @ [Some (''['' @ v @ '']'')]\<rparr>)"
  by (simp add: attr_def)

lemma pseudoClass_pushes:
  "\<not> match_colons (lastEl_of this) \<Longrightarrow>
   pseudoClass v this = Inr (this\<lparr>arr := arr this @ [Some ('':'' @ v)]\<rparr>)"
  by (simp add: pseudoClass_def)

lemma pseudoElement_pushes:
  "psCount this = 0 \<Longrightarrow>
   pseudoElement v this = Inr (this\<lparr>arr := arr this @ [Some (''::'' @ v)], psCount := 1\<rparr>)"
  by (simp add: pseudoElement_def)

lemma match_colons_Cons:
  "match_colons (Some (c # v)) = (c = CHR '':'' \<and> match_class '':'' (Some v))"
  by (cases v) auto

lemma not_match_weaken:
  assumes "\<not> match_class ''.[:'' l"
  shows "\<not> match_class ''[:'' l" and "\<not> match_class '':'' l" and "\<not> match_colons l"
  using assms by (cases l rule: match_colons.cases; simp)+

lemma occurrences_snoc:
  "occurrences r (cs @ [c]) = occurrences r cs + (if rank c = r then 1 else 0)"
  by (simp add: occurrences_def)

lemma occurrences_zero: "occurrences r cs = 0 \<Longrightarrow> c \<in> set cs \<Longrightarrow> rank c \<noteq> r"
  by (auto simp: occurrences_def filter_empty_conv)

lemma prefixed_no_bracket_colon:
  "rank c = 1 \<or> rank c = 2 \<Longrightarrow> \<not> match_class ''[:'' (Some (prefixed c))"
  by (cases c) auto

lemma prefixed_no_colon:
  "rank c = 1 \<or> rank c = 2 \<or> rank c = 3 \<Longrightarrow> \<not> match_class '':'' (Some (prefixed c))"
  by (cases c) auto

lemma prefixed_no_colons:
  "rank c \<noteq> 0 \<Longrightarrow> rank c \<noteq> 5 \<Longrightarrow> plain c \<Longrightarrow> \<not> match_colons (Some (prefixed c))"
  by (cases c) (auto simp: match_colons_Cons)

lemma tail_run:
  assumes "list_all plain cs" and "sorted (map rank cs)"
    and "occurrences 0 cs = 0" and "occurrences 1 cs \<le> 1" and "occurrences 5 cs \<le> 1"
    and "idCount this = 0" and "psCount this = 0"
    and "\<not> match_class ''.[:'' (lastEl_of this)"
  shows "chain cs this =
           Inr (this\<lparr>arr := arr this @ map (\<lambda>c. Some (prefixed c)) cs,
                     idCount := occurrences 1 cs, psCount := occurrences 5 cs\<rparr>)"
  using assms(1-5)
proof (induction cs rule: rev_induct)
  case Nil
  show ?case using assms(6,7) by (simp add: occurrences_def)
next
  case (snoc x xs)
  let ?s = "this\<lparr>arr := arr this @ map (\<lambda>c. Some (prefixed c)) xs,
                   idCount := occurrences 1 xs, psCount := occurrences 5 xs\<rparr>"
  from snoc.prems have plain: "list_all plain xs" "plain x"
    and srt: "sorted (map rank xs)" and le: "\<forall>y\<in>set xs. rank y \<le> rank x"
    and o0: "occurrences 0 xs = 0" "rank x \<noteq> 0"
    and o1: "occurrences 1 xs + (if rank x = 1 then 1 else 0) \<le> 1"
    and o5: "occurrences 5 xs + (if rank x = 5 then 1 else 0) \<le> 1"
    by (auto simp: sorted_append occurrences_snoc split: if_splits)
  have run: "chain xs this = Inr ?s"
    using snoc.IH plain srt o0 o1 o5 by (simp split: if_splits)
  have last_s: "lastEl_of ?s = (if xs = [] then lastEl_of this else Some (prefixed (last xs)))"
    by (cases xs rule: rev_cases) (simp_all add: lastEl_of_def)
  have last_rank: "xs \<noteq> [] \<Longrightarrow> rank (last xs) \<le> rank x \<and> rank (last xs) \<noteq> 0 \<and> plain (last xs)"
    using le o0 plain(1) occurrences_zero [of 0 xs "last xs"]
    by (auto simp: list_all_iff)
  have step: "invoke x ?s =
      Inr (?s\<lparr>arr := arr ?s @ [Some (prefixed x)],
               idCount := occurrences 1 (xs @ [x]), psCount := occurrences 5 (xs @ [x])\<rparr>)"
  proof (cases x)
    case (ELEMENT v)
    with o0 show ?thesis by simp
  next
    case (ID v)
    with o1 have z: "occurrences 1 xs = 0" by simp
    have "xs = []"
    proof (rule ccontr)
      assume ne: "xs \<noteq> []"
      with last_rank ID have "rank (last xs) = 1" by auto
      moreover from ne have "last xs \<in> set xs" by simp
      ultimately show False using occurrences_zero [OF z] by blast
    qed
    with ID assms(6,8) show ?thesis
      by (simp add: id_sel_pushes occurrences_def)
  next
    case (CLASS v)
    have "\<not> match_class ''[:'' (lastEl_of ?s)"
    proof (cases "xs = []")
      case True
      with assms(8) last_s show ?thesis by (simp add: not_match_weaken)
    next
      case False
      with last_rank CLASS have "rank (last xs) = 1 \<or> rank (last xs) = 2" by auto
      with False last_s show ?thesis by (simp add: prefixed_no_bracket_colon)
    qed
    with CLASS show ?thesis by (simp add: class_sel_pushes occurrences_snoc)
  next
    case (ATTR v)
    have "\<not> match_class '':'' (lastEl_of ?s)"
    proof (cases "xs = []")
      case True
      with assms(8) last_s show ?thesis by (simp add: not_match_weaken)
    next
      case False
      with last_rank ATTR have "rank (last xs) = 1 \<or> rank (last xs) = 2 \<or> rank (last xs) = 3" by auto
      with False last_s show ?thesis by (simp add: prefixed_no_colon)
    qed
    with ATTR show ?thesis by (simp add: attr_pushes occurrences_snoc)
  next
    case (PSEUDO_CLASS v)
    have "\<not> match_colons (lastEl_of ?s)"
    proof (cases "xs = []")
      case True
      with assms(8) last_s show ?thesis by (simp add: not_match_weaken)
    next
      case False
      with last_rank PSEUDO_CLASS have "rank (last xs) \<noteq> 0 \<and> rank (last xs) \<noteq> 5 \<and> plain (last xs)" by auto
      with False last_s show ?thesis by (simp add: prefixed_no_colons)
    qed
    with PSEUDO_CLASS show ?thesis by (simp add: pseudoClass_pushes occurrences_snoc)
  next
    case (PSEUDO_ELEMENT v)
    with o5 have "occurrences 5 xs = 0" by simp
    with PSEUDO_ELEMENT show ?thesis by (simp add: pseudoElement_pushes occurrences_snoc)
  qed
  have "chain (xs @ [x]) this = invoke x ?s"
    by (simp add: chain_append run split: sum.splits)
  then show ?case
    by (simp only: step) simp
qed


lemma sorted_rank_no_element:
  assumes "sorted (map rank (c # cs))" and "rank c \<noteq> 0"
  shows "occurrences 0 (c # cs) = 0"
  using assms by (auto simp: occurrences_def filter_empty_conv)

lemma element_pushes:
  "\<not> truthy (lastEl_of this) \<Longrightarrow>
   element v this = Inr (this\<lparr>arr := arr this @ [Some v], elCount := elCount this + 1\<rparr>)"
  by (simp add: element_def)

lemma element_next:
  "truthy (lastEl_of this) \<Longrightarrow> match_class ''.#:[ '' (lastEl_of this) \<Longrightarrow>
   elCount this \<noteq> 0 \<or> \<not> match_class ''#[:'' (lastEl_of this) \<Longrightarrow>
   element v this =
     Inr (this\<lparr>arr := arr this @ [None, Some v], isCombo := True,
               elCount := 1, idCount := 0, psCount := 0\<rparr>)"
  by (auto simp add: element_def counterReset_def)

lemma valid_order_tail:
  assumes "valid_order (ELEMENT e # rest)"
  shows "sorted (map rank rest)" and "occurrences 0 rest = 0"
    and "occurrences 1 rest \<le> 1" and "occurrences 5 rest \<le> 1"
  using assms by (auto simp: valid_order_def occurrences_def)

lemma occurrences_Cons_other:
  "rank c \<noteq> r \<Longrightarrow> occurrences r (c # rest) = occurrences r rest"
  by (simp add: occurrences_def)

lemma chain_valid:
  assumes "valid_order cs" and "list_all plain cs"
  shows "chain cs cssSelectorBuilder =
           Inr \<lparr>arr = map (\<lambda>c. Some (prefixed c)) cs, comb = [], isCombo = False,
                elCount = occurrences 0 cs, idCount = occurrences 1 cs,
                psCount = occurrences 5 cs\<rparr>"
proof (cases cs)
  case Nil
  then show ?thesis by (simp add: cssSelectorBuilder_def occurrences_def)
next
  case (Cons c rest)
  show ?thesis
  proof (cases "rank c = 0")
    case True
    then obtain e where c: "c = ELEMENT e" by (cases c) auto
    let ?s = "cssSelectorBuilder\<lparr>arr := [Some e], elCount := 1\<rparr>"
    have first: "element e cssSelectorBuilder = Inr ?s"
      by (simp add: element_pushes cssSelectorBuilder_def)
    have "\<not> match_class ''.[:'' (lastEl_of ?s)"
      using assms(2) Cons c by (simp add: lastEl_of_def)
    moreover have "idCount ?s = 0" "psCount ?s = 0"
      by (simp_all add: cssSelectorBuilder_def)
    moreover have "list_all plain rest" using assms(2) Cons by simp
    ultimately have "chain rest ?s =
        Inr (?s\<lparr>arr := arr ?s @ map (\<lambda>c. Some (prefixed c)) rest,
                 idCount := occurrences 1 rest, psCount := occurrences 5 rest\<rparr>)"
      using valid_order_tail [of e rest] assms(1) Cons c by (intro tail_run) auto
    moreover have "occurrences 0 cs = 1"
      using valid_order_tail(2) [of e rest] assms(1) Cons c by (simp add: occurrences_def)
    ultimately show ?thesis
      using Cons c first by (simp add: cssSelectorBuilder_def occurrences_Cons_other)
  next
    case False
    have z: "occurrences 0 cs = 0"
      using sorted_rank_no_element [of c rest] assms(1) Cons False
      by (simp add: valid_order_def)
    have "chain cs cssSelectorBuilder =
        Inr (cssSelectorBuilder\<lparr>arr := arr cssSelectorBuilder @ map (\<lambda>c. Some (prefixed c)) cs,
                 idCount := occurrences 1 cs, psCount := occurrences 5 cs\<rparr>)"
      using assms z by (intro tail_run) (auto simp: valid_order_def cssSelectorBuilder_def lastEl_of_def)
    then show ?thesis using z by (simp add: cssSelectorBuilder_def)
  qed
qed

lemma join_prefixed: "join (map (\<lambda>c. Some (prefixed c)) cs) = selector_text cs"
  by (induction cs) (simp_all add: selector_text_def)

subsection \<open>Filling the placeholders\<close>

lemma fill_slots_no_tokens: "fill_slots xs [] = xs"
proof (induction xs)
  case Nil
  show ?case by simp
next
  case (Cons a xs)
  then show ?case by (cases a) simp_all
qed

lemma indexOf_bounds: "- 1 \<le> indexOf xs x \<and> indexOf xs x < int (length xs)"
  by (induction xs) (auto simp: Let_def)

lemma assign_first_null: "assign a (indexOf a None) (Some t) = fill_slots a [t]"
proof (induction a)
  case Nil
  show ?case by (simp add: assign_def)
next
  case (Cons y ys)
  show ?case
  proof (cases y)
    case None
    then show ?thesis by (simp add: assign_def fill_slots_no_tokens)
  next
    case (Some v)
    with Cons indexOf_bounds [of ys None] show ?thesis
      by (auto simp: assign_def Let_def nat_add_distrib split: if_splits)
  qed
qed

lemma fill_slots_step: "fill_slots (fill_slots xs [t]) ts = fill_slots xs (t # ts)"
proof (induction xs)
  case Nil
  show ?case by simp
next
  case (Cons a xs)
  then show ?case by (cases a) (simp_all add: fill_slots_no_tokens)
qed

lemma foldl_fill:
  "foldl (\<lambda>a el. assign a (indexOf a None) (Some el)) xs ts = fill_slots xs ts"
  by (induction ts arbitrary: xs)
     (simp_all add: fill_slots_no_tokens assign_first_null fill_slots_step)

lemma stringify_composite:
  assumes "isCombo this"
    and "length (comb this) = length (filter (\<lambda>el. el = None) (arr this))"
  shows "stringify this =
           Inr (join (fill_slots (arr this) (rev (comb this))),
                this\<lparr>arr := [], comb := [], isCombo := False,
                     elCount := 0, idCount := 0, psCount := 0\<rparr>)"
  using assms
  by (simp add: stringify_def join_and_reset_def counterReset_def foldl_fill)

lemma stringify_simple:
  assumes "\<not> isCombo this"
  shows "stringify this =
           Inr (join (arr this),
                this\<lparr>arr := [], comb := [], elCount := 0, idCount := 0, psCount := 0\<rparr>)"
  using assms by (simp add: stringify_def join_and_reset_def counterReset_def)

lemma fill_slots_fragments:
  "fill_slots (map (\<lambda>c. Some (f c)) cs @ ys) ts = map (\<lambda>c. Some (f c)) cs @ fill_slots ys ts"
  by (induction cs) simp_all

lemma join_append: "join (xs @ ys) = join xs @ join ys"
  by (induction xs rule: join.induct) simp_all

lemma no_null_in_fragments: "filter (\<lambda>el. el = None) (map (\<lambda>c. Some (f c)) cs) = []"
  by (induction cs) simp_all


lemma prefixed_marked:
  "rank c \<noteq> 0 \<Longrightarrow> truthy (Some (prefixed c)) \<and> match_class ''.#:[ '' (Some (prefixed c))"
  by (cases c) auto

lemma last_not_element:
  assumes "valid_order cs" and "element_first cs" and "2 \<le> length cs"
  shows "rank (last cs) \<noteq> 0"
proof -
  from assms(2) obtain e rest where cs: "cs = ELEMENT e # rest"
    by (cases cs rule: element_first.cases) auto
  with assms(3) have ne: "rest \<noteq> []" by auto
  then have "last cs \<in> set rest" using cs by simp
  moreover have "occurrences 0 rest = 0"
    using valid_order_tail(2) assms(1) cs by blast
  ultimately show ?thesis by (rule occurrences_zero [rotated])
qed

lemma chain_next_selector:
  assumes "valid_order cs" and "list_all plain cs" and "element_first cs"
    and "truthy (lastEl_of this)" and "match_class ''.#:[ '' (lastEl_of this)"
    and "elCount this \<noteq> 0 \<or> \<not> match_class ''#[:'' (lastEl_of this)"
  shows "chain cs this =
           Inr (this\<lparr>arr := arr this @ None # map (\<lambda>c. Some (prefixed c)) cs,
                     isCombo := True, elCount := 1,
                     idCount := occurrences 1 cs, psCount := occurrences 5 cs\<rparr>)"
proof -
  from assms(3) obtain e rest where cs: "cs = ELEMENT e # rest"
    by (cases cs rule: element_first.cases) auto
  let ?s = "this\<lparr>arr := arr this @ [None, Some e], isCombo := True,
                   elCount := 1, idCount := 0, psCount := 0\<rparr>"
  have first: "element e this = Inr ?s"
    using assms(4-6) by (rule element_next)
  have "\<not> match_class ''.[:'' (lastEl_of ?s)"
    using assms(2) cs by (simp add: lastEl_of_def)
  moreover have "idCount ?s = 0" "psCount ?s = 0" by simp_all
  moreover have "list_all plain rest" using assms(2) cs by simp
  ultimately have "chain rest ?s =
      Inr (?s\<lparr>arr := arr ?s @ map (\<lambda>c. Some (prefixed c)) rest,
               idCount := occurrences 1 rest, psCount := occurrences 5 rest\<rparr>)"
    using valid_order_tail [of e rest] assms(1) cs by (intro tail_run) auto
  then show ?thesis
    using cs first by (simp add: occurrences_Cons_other)
qed

lemma nested_compound:
  assumes x: "valid_order x" "list_all plain x" "element_first x" "2 \<le> length x"
    and y: "valid_order y" "list_all plain y" "element_first y" "2 \<le> length y"
    and z: "valid_order z" "list_all plain z" "element_first z"
  shows "nested x c1 y c2 z =
           Inr (selector_text x @ '' '' @ c1 @ '' '' @ selector_text y
                  @ '' '' @ c2 @ '' '' @ selector_text z,
                cssSelectorBuilder)"
proof -
  let ?f = "\<lambda>c. Some (prefixed c)"
  let ?s1 = "\<lparr>arr = map ?f x, comb = [], isCombo = False,
               elCount = occurrences 0 x, idCount = occurrences 1 x,
               psCount = occurrences 5 x\<rparr>"
  have r1: "chain x cssSelectorBuilder = Inr ?s1"
    using x(1,2) by (rule chain_valid)
  have x_ne: "x \<noteq> []" and y_ne: "y \<noteq> []" using x(4) y(4) by auto
  have l1: "lastEl_of ?s1 = Some (prefixed (last x))"
    using x_ne by (simp add: lastEl_of_def last_map)
  have e1: "elCount ?s1 \<noteq> 0"
    using x(3) by (cases x rule: element_first.cases) (auto simp: occurrences_def)
  let ?s2 = "?s1\<lparr>arr := arr ?s1 @ None # map ?f y, isCombo := True, elCount := 1,
                   idCount := occurrences 1 y, psCount := occurrences 5 y\<rparr>"
  have r2: "chain y ?s1 = Inr ?s2"
    using y(1-3) prefixed_marked [OF last_not_element [OF x(1,3,4)]] e1
    by (intro chain_next_selector) (simp_all only: l1, simp)
  have l2: "lastEl_of ?s2 = Some (prefixed (last y))"
    using y_ne by (simp add: lastEl_of_def last_map)
  let ?s3 = "?s2\<lparr>arr := arr ?s2 @ None # map ?f z, isCombo := True, elCount := 1,
                   idCount := occurrences 1 z, psCount := occurrences 5 z\<rparr>"
  have r3: "chain z ?s2 = Inr ?s3"
    using z(1-3) prefixed_marked [OF last_not_element [OF y(1,3,4)]]
    by (intro chain_next_selector) (simp_all only: l2, simp)
  let ?s5 = "?s3\<lparr>comb := ['' '' @ c2 @ '' '', '' '' @ c1 @ '' '']\<rparr>"
  have "nested x c1 y c2 z = stringify ?s5"
    unfolding nested_def by (simp only: r1 r2 r3 sum.case Let_def combine_def) simp
  also have "\<dots> = Inr (join (fill_slots (arr ?s5) (rev (comb ?s5))),
                ?s5\<lparr>arr := [], comb := [], isCombo := False,
                     elCount := 0, idCount := 0, psCount := 0\<rparr>)"
    by (rule stringify_composite) (simp_all add: no_null_in_fragments)
  also have "\<dots> = Inr (selector_text x @ '' '' @ c1 @ '' '' @ selector_text y
                  @ '' '' @ c2 @ '' '' @ selector_text z,
                cssSelectorBuilder)"
    using fill_slots_fragments [of prefixed x] fill_slots_fragments [of prefixed y]
      fill_slots_fragments [of prefixed z "[]"]
    by (simp add: join_append join_prefixed cssSelectorBuilder_def fill_slots_no_tokens)
  finally show ?thesis .
qed

subsection \<open>Last fragment, counters and the state after an error\<close>

lemma invoke_lastEl: "invoke c this = Inr this' \<Longrightarrow> lastEl_of this' = Some (prefixed c)"
  by (cases c)
     (auto simp: element_def id_sel_def class_sel_def attr_def pseudoClass_def
        pseudoElement_def errorHandler_def counterReset_def Let_def lastEl_of_def
        split: if_splits)

lemma chain_snoc_lastEl:
  "chain (cs @ [c]) this = Inr this' \<Longrightarrow> lastEl_of this' = Some (prefixed c)"
  by (auto simp: chain_append invoke_lastEl split: sum.splits)

lemma invoke_counts_mono:
  "invoke c this = Inr this' \<Longrightarrow> rank c \<noteq> 0 \<Longrightarrow>
   idCount this \<le> idCount this' \<and> psCount this \<le> psCount this'
     \<and> (rank c = 1 \<longrightarrow> idCount this' \<noteq> 0) \<and> (rank c = 5 \<longrightarrow> psCount this' \<noteq> 0)"
  by (cases c)
     (auto simp: id_sel_def class_sel_def attr_def pseudoClass_def
        pseudoElement_def errorHandler_def Let_def split: if_splits)

lemma chain_counts_mono:
  "chain cs this = Inr this' \<Longrightarrow> occurrences 0 cs = 0 \<Longrightarrow>
   idCount this \<le> idCount this' \<and> psCount this \<le> psCount this'"
proof (induction cs arbitrary: this)
  case Nil
  then show ?case by simp
next
  case (Cons c cs)
  from Cons.prems(2) have c: "rank c \<noteq> 0" and cs: "occurrences 0 cs = 0"
    by (auto simp: occurrences_def split: if_splits)
  from Cons.prems(1) obtain mid where m: "invoke c this = Inr mid" and r: "chain cs mid = Inr this'"
    by (auto split: sum.splits)
  from invoke_counts_mono [OF m c] Cons.IH [OF r cs] show ?case by auto
qed

lemma invoke_error_resets:
  "invoke c this = Inl (e, this') \<Longrightarrow>
   this' = arrsReset (counterReset this) \<and> (e = DuplicateViolation \<or> e = OrderViolation)"
  by (cases c)
     (auto simp: element_def id_sel_def class_sel_def attr_def pseudoClass_def
        pseudoElement_def errorHandler_def Let_def split: if_splits)

lemma stringify_error_keeps:
  "stringify this = Inl (e, this') \<Longrightarrow> e = CompositionError \<and> this' = this \<and> isCombo this"
  by (auto simp: stringify_def split: if_splits)

lemma combined_compound:
  assumes a: "valid_order a" "list_all plain a" "element_first a" "2 \<le> length a"
    and b: "valid_order b" "list_all plain b" "element_first b"
  shows "combined a c b =
           Inr (selector_text a @ '' '' @ c @ '' '' @ selector_text b, cssSelectorBuilder)"
proof -
  let ?f = "\<lambda>c. Some (prefixed c)"
  let ?s1 = "\<lparr>arr = map ?f a, comb = [], isCombo = False,
               elCount = occurrences 0 a, idCount = occurrences 1 a,
               psCount = occurrences 5 a\<rparr>"
  have r1: "chain a cssSelectorBuilder = Inr ?s1"
    using a(1,2) by (rule chain_valid)
  have a_ne: "a \<noteq> []" using a(4) by auto
  have l1: "lastEl_of ?s1 = Some (prefixed (last a))"
    using a_ne by (simp add: lastEl_of_def last_map)
  have e1: "elCount ?s1 \<noteq> 0"
    using a(3) by (cases a rule: element_first.cases) (auto simp: occurrences_def)
  let ?s2 = "?s1\<lparr>arr := arr ?s1 @ None # map ?f b, isCombo := True, elCount := 1,
                   idCount := occurrences 1 b, psCount := occurrences 5 b\<rparr>"
  have r2: "chain b ?s1 = Inr ?s2"
    using b(1-3) prefixed_marked [OF last_not_element [OF a(1,3,4)]] e1
    by (intro chain_next_selector) (simp_all only: l1, simp)
  let ?s3 = "?s2\<lparr>comb := ['' '' @ c @ '' '']\<rparr>"
  have "combined a c b = stringify ?s3"
    unfolding combined_def by (simp only: r1 r2 sum.case combine_def) simp
  also have "\<dots> = Inr (join (fill_slots (arr ?s3) (rev (comb ?s3))),
                ?s3\<lparr>arr := [], comb := [], isCombo := False,
                     elCount := 0, idCount := 0, psCount := 0\<rparr>)"
    by (rule stringify_composite) (simp_all add: no_null_in_fragments)
  also have "\<dots> = Inr (selector_text a @ '' '' @ c @ '' '' @ selector_text b,
                cssSelectorBuilder)"
    using fill_slots_fragments [of prefixed a] fill_slots_fragments [of prefixed b "[]"]
    by (simp add: join_append join_prefixed cssSelectorBuilder_def fill_slots_no_tokens)
  finally show ?thesis .
qed

section \<open>Facts about the JSON built-ins\<close>

lemma hex_value_hex_digit: "d < 16 \<Longrightarrow> hex_value (hex_digit d) = Some d"
  by (auto simp: hex_value_def hex_digit_def)

lemma hex_digits_value:
  fixes c :: nat
  assumes "c < 65536"
  shows "((c div 4096 mod 16 * 16 + c div 256 mod 16) * 16 + c div 16 mod 16) * 16 + c mod 16 = c"
proof -
  have d: "c div 4096 = c div 256 div 16" and b: "c div 256 = c div 16 div 16"
    by (simp_all add: div_mult2_eq [symmetric])
  have "c div 4096 < 16" using assms by simp
  then have "c div 4096 mod 16 = c div 4096" by simp
  moreover have "c div 4096 * 16 + c div 256 mod 16 = c div 256"
    unfolding d by (rule div_mult_mod_eq)
  moreover have "c div 256 * 16 + c div 16 mod 16 = c div 16"
    unfolding b by (rule div_mult_mod_eq)
  moreover have "c div 16 * 16 + c mod 16 = c"
    by (rule div_mult_mod_eq)
  ultimately show ?thesis by (simp only:)
qed

lemma unicode_escape_decodes:
  assumes "c < 65536"
  obtains h1 h2 h3 h4 where "unicode_escape c = [0x5C, 0x75, h1, h2, h3, h4]"
    and "decode4 h1 h2 h3 h4 = Some c"
proof -
  have "decode4 (hex_digit (c div 4096 mod 16)) (hex_digit (c div 256 mod 16))
           (hex_digit (c div 16 mod 16)) (hex_digit (c mod 16)) = Some c"
    unfolding decode4_def
    by (simp only: hex_value_hex_digit mod_less_divisor zero_less_numeral prod.case
        option.case hex_digits_value [OF assms])
  then show ?thesis
    using that unfolding unicode_escape_def by blast
qed

lemma parse_chars_quote: "parse_chars (0x22 # cs) = Some ([], cs)"
  by simp

lemma parse_chars_raw:
  "c \<noteq> 0x22 \<Longrightarrow> c \<noteq> 0x5C \<Longrightarrow> 0x20 \<le> c \<Longrightarrow>
   parse_chars (c # rest) = map_option (\<lambda>(s, r). (c # s, r)) (parse_chars rest)"
  by simp

lemma parse_chars_simple_escape:
  "e \<noteq> 0x75 \<Longrightarrow>
   parse_chars (0x5C # e # rest) =
     (case unescape e of None \<Rightarrow> None
      | Some u \<Rightarrow> map_option (\<lambda>(s, r). (u # s, r)) (parse_chars rest))"
  by simp

lemma parse_chars_u_escape:
  "decode4 h1 h2 h3 h4 = Some u \<Longrightarrow>
   parse_chars (0x5C # 0x75 # h1 # h2 # h3 # h4 # rest)
     = map_option (\<lambda>(s, r). (u # s, r)) (parse_chars rest)"
  by simp

declare parse_chars.simps [simp del]

lemma parse_chars_unicode_escape:
  assumes "c < 65536"
  shows "parse_chars (unicode_escape c @ rest)
           = map_option (\<lambda>(s, r). (c # s, r)) (parse_chars rest)"
proof -
  from assms obtain h1 h2 h3 h4 where "unicode_escape c = [0x5C, 0x75, h1, h2, h3, h4]"
    and "decode4 h1 h2 h3 h4 = Some c"
    by (rule unicode_escape_decodes)
  then show ?thesis by (simp add: parse_chars_u_escape)
qed

lemma parse_chars_escape_unit:
  "parse_chars (escape_unit c @ rest) = map_option (\<lambda>(s, r). (c # s, r)) (parse_chars rest)"
proof (cases "c < 0x20 \<and> c \<noteq> 0x08 \<and> c \<noteq> 0x09 \<and> c \<noteq> 0x0A \<and> c \<noteq> 0x0C \<and> c \<noteq> 0x0D")
  case True
  then have "escape_unit c = unicode_escape c" by (simp add: escape_unit_def)
  moreover from True have "c < 65536" by simp
  ultimately show ?thesis by (simp add: parse_chars_unicode_escape)
next
  case False
  then show ?thesis
    by (auto simp: escape_unit_def parse_chars_simple_escape unescape_def parse_chars_raw)
qed

lemma parse_chars_quote_units:
  "parse_chars (quote_units s @ 0x22 # rest) = Some (s, rest)"
proof (induction s rule: quote_units.induct)
  case 1
  show ?case by (simp add: parse_chars_quote)
next
  case (2 c cs)
  show ?case
  proof (cases "is_lead c")
    case lead: True
    then have c: "c < 65536" "c \<noteq> 0x22" "c \<noteq> 0x5C" "0x20 \<le> c"
      by (auto simp: is_lead_def)
    show ?thesis
    proof (cases cs)
      case Nil
      with lead c show ?thesis by (simp add: parse_chars_unicode_escape parse_chars_quote)
    next
      case (Cons d ds)
      show ?thesis
      proof (cases "is_trail d")
        case True
        then have d: "d \<noteq> 0x22" "d \<noteq> 0x5C" "0x20 \<le> d" by (auto simp: is_trail_def)
        from 2(1) [OF lead Cons True] lead Cons True c d show ?thesis
          by (simp add: parse_chars_raw)
      next
        case False
        from 2(2) [OF lead Cons False] lead Cons False c show ?thesis
          by (simp add: parse_chars_unicode_escape)
      qed
    qed
  next
    case nolead: False
    show ?thesis
    proof (cases "is_trail c")
      case True
      then have "c < 65536" by (simp add: is_trail_def)
      with 2(3) [OF nolead True] nolead True show ?thesis
        by (simp add: parse_chars_unicode_escape)
    next
      case False
      with 2(4) [OF nolead False] nolead show ?thesis
        by (simp add: parse_chars_escape_unit)
    qed
  qed
qed

lemma skip_ws_start: "\<not> is_ws c \<Longrightarrow> skip_ws (c # r) = c # r"
  by (simp add: skip_ws_def)

lemma value_start_facts:
  assumes "value_start c"
  shows "\<not> is_ws c" and "c \<noteq> 0x5D" and "c \<noteq> 0x7D" and "c \<noteq> 0x2C"
  using assms by (auto simp: value_start_def is_ws_def is_digit_def)

lemma number_grammar_start:
  "number_grammar t \<Longrightarrow> \<exists>c r. t = c # r \<and> (c = 0x2D \<or> is_digit c)"
  by (cases t) (auto simp: number_grammar_def int_part_def is_digit_def split: if_splits list.splits)

lemma span_num_chars:
  assumes "list_all is_num_char t" and "delimited rest"
  shows "takeWhile is_num_char (t @ rest) = t" and "dropWhile is_num_char (t @ rest) = rest"
proof -
  have "takeWhile is_num_char rest = []" and "dropWhile is_num_char rest = rest"
    using assms(2) by (cases rest; simp add: delimited_def)+
  with assms(1) show "takeWhile is_num_char (t @ rest) = t"
    and "dropWhile is_num_char (t @ rest) = rest"
    by (simp_all add: list_all_iff takeWhile_append2 dropWhile_append2)
qed

lemma scalar_null: "parse_scalar nv (str ''null'' @ rest) = Some (JNull, rest)"
  by (simp add: parse_scalar_def str_def)

lemma scalar_true: "parse_scalar nv (str ''true'' @ rest) = Some (JBool True, rest)"
  by (simp add: parse_scalar_def str_def)

lemma scalar_false: "parse_scalar nv (str ''false'' @ rest) = Some (JBool False, rest)"
  by (simp add: parse_scalar_def str_def)

lemma scalar_string: "parse_scalar nv (QuoteJSONString s @ rest) = Some (JString s, rest)"
  by (simp add: parse_scalar_def QuoteJSONString_def parse_chars_quote_units)

lemma scalar_number:
  assumes "number_grammar t" and "list_all is_num_char t" and "delimited rest"
  shows "parse_scalar nv (t @ rest) = Some (JNumber (nv t), rest)"
proof -
  from number_grammar_start [OF assms(1)] obtain c r
    where t: "t = c # r" and c: "c = 0x2D \<or> is_digit c" by blast
  from c have ne: "c \<noteq> 0x22" "c \<noteq> 0x6E" "c \<noteq> 0x74" "c \<noteq> 0x66"
    by (auto simp: is_digit_def)
  have span: "takeWhile is_num_char (c # r @ rest) = c # r"
      "dropWhile is_num_char (c # r @ rest) = rest"
    using span_num_chars [OF assms(2,3)] t by simp_all
  have "parse_scalar nv (c # r @ rest) = Some (JNumber (nv (c # r)), rest)"
    unfolding parse_scalar_def using ne c assms(1) t
    by (simp add: str_def span Let_def del: takeWhile.simps dropWhile.simps)
  then show ?thesis using t by simp
qed

lemma stringify_start:
  "json_ok nt nv v \<Longrightarrow> \<exists>c r. JSON_stringify nt v = c # r \<and> value_start c"
proof (cases v)
  case (JNumber n)
  assume "json_ok nt nv v"
  with JNumber have "number_grammar (nt n)" by simp
  from number_grammar_start [OF this] JNumber show ?thesis
    by (auto simp: value_start_def)
qed (auto simp: value_start_def str_def QuoteJSONString_def)

lemma elements_text_start:
  "elements_ok nt nv (v # vs) \<Longrightarrow> \<exists>c r. elements_text nt (v # vs) = c # r \<and> value_start c"
  using stringify_start [of nt nv v] by auto

lemma members_text_start:
  "\<exists>r. members_text nt ((k, v) # kvs) = 0x22 # r"
  by (simp add: QuoteJSONString_def)

lemma parse_value_scalar:
  assumes "value_start c" and "c \<noteq> 0x7B" and "c \<noteq> 0x5B"
  shows "parse_value nv (Suc n) (c # r) = parse_scalar nv (c # r)"
  using assms by (simp add: skip_ws_start value_start_facts)

lemma closes_yes: "closes c (c # r) = (if is_ws c then closes c r else Some r)"
  by (simp add: closes_def skip_ws_def)

lemma closes_no: "\<not> is_ws c \<Longrightarrow> c \<noteq> d \<Longrightarrow> closes d (c # r) = None"
  by (simp add: closes_def skip_ws_def)

lemma separator_comma: "separator d (0x2C # r) = Some (True, r)"
  by (simp add: separator_def skip_ws_def is_ws_def)

lemma separator_close: "\<not> is_ws d \<Longrightarrow> d \<noteq> 0x2C \<Longrightarrow> separator d (d # r) = Some (False, r)"
  by (simp add: separator_def skip_ws_def)

lemma parse_key_quoted:
  "parse_key (QuoteJSONString k @ 0x3A # r) = Some (k, r)"
  by (simp add: parse_key_def skip_ws_def is_ws_def QuoteJSONString_def parse_chars_quote_units)

lemma delimited_facts: "delimited (0x2C # r)" "delimited (0x5D # r)" "delimited (0x7D # r)"
  by (simp_all add: delimited_def is_num_char_def is_digit_def)

lemma object_of_distinct_aux:
  "distinct (map fst (acc @ kvs)) \<Longrightarrow>
   foldl (\<lambda>obj (k, v). if k \<in> set (map fst obj)
       then map (\<lambda>(k', v'). if k' = k then (k', v) else (k', v')) obj
       else obj @ [(k, v)]) acc kvs = acc @ kvs"
proof (induction kvs arbitrary: acc)
  case Nil
  show ?case by simp
next
  case (Cons kv kvs)
  obtain k v where kv: "kv = (k, v)" by (cases kv)
  from Cons.prems kv have "k \<notin> set (map fst acc)" by auto
  moreover from Cons.prems kv have "distinct (map fst ((acc @ [(k, v)]) @ kvs))" by simp
  ultimately show ?case using Cons.IH [of "acc @ [(k, v)]"] kv by simp
qed

lemma object_of_distinct: "distinct (map fst kvs) \<Longrightarrow> object_of kvs = kvs"
  using object_of_distinct_aux [of "[]" kvs] by (simp add: object_of_def)

lemma members_ok_distinct: "members_ok nt nv kvs \<Longrightarrow> distinct (map fst kvs)"
proof (induction kvs)
  case Nil
  show ?case by simp
next
  case (Cons kv kvs)
  obtain k v where "kv = (k, v)" by (cases kv)
  with Cons show ?case by simp
qed


lemma round_trip_values:
  "json_ok nt nv v \<Longrightarrow> fuel_needed v \<le> n \<Longrightarrow> delimited rest \<Longrightarrow>
     parse_value nv n (JSON_stringify nt v @ rest) = Some (v, rest)"
  and round_trip_elements:
  "elements_ok nt nv vs \<Longrightarrow> vs \<noteq> [] \<Longrightarrow> elements_fuel vs \<le> n \<Longrightarrow>
     parse_elements nv n (elements_text nt vs @ rest) = Some (vs, rest)"
  and round_trip_members:
  "members_ok nt nv kvs \<Longrightarrow> kvs \<noteq> [] \<Longrightarrow> members_fuel kvs \<le> n \<Longrightarrow>
     parse_members nv n (members_text nt kvs @ rest) = Some (kvs, rest)"
proof (induction nt v and nt vs and nt kvs arbitrary: n rest and n rest and n rest
    rule: JSON_stringify_elements_text_members_text.induct)
  case (1 nt)
  then obtain m where n: "n = Suc m" by (cases n) auto
  have "value_start 0x6E" by (simp add: value_start_def)
  then have "parse_value nv (Suc m) (0x6E # str ''ull'' @ rest) = parse_scalar nv (0x6E # str ''ull'' @ rest)"
    by (rule parse_value_scalar) simp_all
  moreover have "str ''null'' @ rest = 0x6E # str ''ull'' @ rest" by (simp add: str_def)
  ultimately show ?case using scalar_null [of nv rest] n by simp
next
  case (2 nt b)
  then obtain m where n: "n = Suc m" by (cases n) auto
  show ?case
  proof (cases b)
    case True
    have "value_start 0x74" by (simp add: value_start_def)
    then have "parse_value nv (Suc m) (0x74 # str ''rue'' @ rest) = parse_scalar nv (0x74 # str ''rue'' @ rest)"
      by (rule parse_value_scalar) simp_all
    moreover have "str ''true'' @ rest = 0x74 # str ''rue'' @ rest" by (simp add: str_def)
    ultimately show ?thesis using scalar_true [of nv rest] n True by simp
  next
    case False
    have "value_start 0x66" by (simp add: value_start_def)
    then have "parse_value nv (Suc m) (0x66 # str ''alse'' @ rest) = parse_scalar nv (0x66 # str ''alse'' @ rest)"
      by (rule parse_value_scalar) simp_all
    moreover have "str ''false'' @ rest = 0x66 # str ''alse'' @ rest" by (simp add: str_def)
    ultimately show ?thesis using scalar_false [of nv rest] n False by simp
  qed
next
  case (3 nt x)
  then obtain m where n: "n = Suc m" by (cases n) auto
  from 3(1) have g: "number_grammar (nt x)" and a: "list_all is_num_char (nt x)"
    and v: "nv (nt x) = x" by simp_all
  from number_grammar_start [OF g] obtain c r where t: "nt x = c # r"
    and c: "c = 0x2D \<or> is_digit c" by blast
  from c have "value_start c" "c \<noteq> 0x7B" "c \<noteq> 0x5B"
    by (auto simp: value_start_def is_digit_def)
  then have "parse_value nv (Suc m) (c # r @ rest) = parse_scalar nv (c # r @ rest)"
    by (rule parse_value_scalar)
  with scalar_number [OF g a 3(3), of nv] t v n show ?case by simp
next
  case (4 nt s)
  then obtain m where n: "n = Suc m" by (cases n) auto
  have "value_start 0x22" by (simp add: value_start_def)
  then have "parse_value nv (Suc m) (0x22 # quote_units s @ 0x22 # rest)
      = parse_scalar nv (0x22 # quote_units s @ 0x22 # rest)"
    by (rule parse_value_scalar) simp_all
  with scalar_string [of nv s rest] n show ?case by (simp add: QuoteJSONString_def)
next
  case (5 nt vs)
  then obtain m where n: "n = Suc m" and m: "elements_fuel vs \<le> m" by (cases n) auto
  show ?case
  proof (cases vs)
    case Nil
    then show ?thesis using n
      by (simp add: skip_ws_start is_ws_def closes_yes)
  next
    case (Cons w ws)
    with 5(2) have ok: "elements_ok nt nv (w # ws)" by simp
    from elements_text_start [OF ok] obtain c r
      where s: "elements_text nt (w # ws) = c # r" and c: "value_start c" by blast
    have "closes 0x5D (elements_text nt vs @ rest) = None"
      using s c Cons value_start_facts [OF c] by (simp add: closes_no del: elements_text.simps)
    moreover have "parse_elements nv m (elements_text nt vs @ rest) = Some (vs, rest)"
      using 5(1) [of m rest] ok Cons m by simp
    ultimately show ?thesis using n
      by (simp add: skip_ws_start is_ws_def del: elements_text.simps)
  qed
next
  case (6 nt kvs)
  then obtain m where n: "n = Suc m" and m: "members_fuel kvs \<le> m" by (cases n) auto
  show ?case
  proof (cases kvs)
    case Nil
    then show ?thesis using n
      by (simp add: skip_ws_start is_ws_def closes_yes object_of_def)
  next
    case (Cons kv kvs')
    obtain k w where kv: "kv = (k, w)" by (cases kv)
    from 6(2) have ok: "members_ok nt nv kvs" by simp
    from members_text_start [of nt k w kvs'] obtain r
      where s: "members_text nt kvs = 0x22 # r" using Cons kv by auto
    have "closes 0x7D (members_text nt kvs @ rest) = None"
      using s by (simp add: closes_no is_ws_def del: members_text.simps)
    moreover have "parse_members nv m (members_text nt kvs @ rest) = Some (kvs, rest)"
      using 6(1) [of m rest] ok Cons m by simp
    ultimately show ?thesis using n object_of_distinct [OF members_ok_distinct [OF ok]]
      by (simp add: skip_ws_start is_ws_def del: members_text.simps)
  qed
next
  case (7 nt)
  then show ?case by simp
next
  case (8 nt v vs)
  from 8(5) obtain m where n: "n = Suc m" and mv: "fuel_needed v \<le> m"
    and ms: "elements_fuel vs \<le> m" by (cases n) auto
  from 8(3) have okv: "json_ok nt nv v" and oks: "elements_ok nt nv vs" by simp_all
  show ?case
  proof (cases "vs = []")
    case True
    have "parse_value nv m (JSON_stringify nt v @ 0x5D # rest) = Some (v, 0x5D # rest)"
      using okv mv by (intro 8(1)) (simp_all add: delimited_facts)
    then show ?thesis using True n
      by (simp add: separator_close is_ws_def)
  next
    case False
    have "parse_value nv m (JSON_stringify nt v @ 0x2C # elements_text nt vs @ rest)
        = Some (v, 0x2C # elements_text nt vs @ rest)"
      using okv mv by (intro 8(1)) (simp_all add: delimited_facts)
    moreover have "parse_elements nv m (elements_text nt vs @ rest) = Some (vs, rest)"
      using oks False ms by (intro 8(2))
    ultimately show ?thesis using False n
      by (simp add: separator_comma)
  qed
next
  case (9 nt)
  then show ?case by simp
next
  case (10 nt k v kvs)
  from 10(5) obtain m where n: "n = Suc m" and mv: "fuel_needed v \<le> m"
    and ms: "members_fuel kvs \<le> m" by (cases n) auto
  from 10(3) have okv: "json_ok nt nv v" and oks: "members_ok nt nv kvs" by simp_all
  show ?case
  proof (cases "kvs = []")
    case True
    have "parse_value nv m (JSON_stringify nt v @ 0x7D # rest) = Some (v, 0x7D # rest)"
      using okv mv by (intro 10(1)) (simp_all add: delimited_facts)
    then show ?thesis using True n
      by (simp add: parse_key_quoted separator_close is_ws_def)
  next
    case False
    have "parse_value nv m (JSON_stringify nt v @ 0x2C # members_text nt kvs @ rest)
        = Some (v, 0x2C # members_text nt kvs @ rest)"
      using okv mv by (intro 10(1)) (simp_all add: delimited_facts)
    moreover have "parse_members nv m (members_text nt kvs @ rest) = Some (kvs, rest)"
      using oks False ms by (intro 10(2))
    ultimately show ?thesis using False n
      by (simp add: parse_key_quoted separator_comma)
  qed
qed

lemma fuel_bound:
  "json_ok nt nv v \<Longrightarrow> fuel_needed v \<le> length (JSON_stringify nt v)"
  and elements_fuel_bound:
  "elements_ok nt nv vs \<Longrightarrow> elements_fuel vs \<le> length (elements_text nt vs)"
  and members_fuel_bound:
  "members_ok nt nv kvs \<Longrightarrow> members_fuel kvs \<le> length (members_text nt kvs)"
proof (induction nt v and nt vs and nt kvs
    rule: JSON_stringify_elements_text_members_text.induct)
  case (3 nt x)
  then have "number_grammar (nt x)" by simp
  from number_grammar_start [OF this] show ?case by auto
next
  case (8 nt v vs)
  then have "fuel_needed v \<le> length (JSON_stringify nt v)"
    and "elements_fuel vs \<le> length (elements_text nt vs)" by simp_all
  moreover have "0 < fuel_needed v" by (cases v) simp_all
  moreover have "0 < length (elements_text nt vs)" by (cases vs) simp_all
  ultimately show ?case by simp
next
  case (10 nt k v kvs)
  then have "fuel_needed v \<le> length (JSON_stringify nt v)"
    and "members_fuel kvs \<le> length (members_text nt kvs)" by simp_all
  then show ?case by simp
qed (simp_all add: str_def QuoteJSONString_def)

lemma JSON_round_trip:
  assumes "json_ok nt nv v"
  shows "JSON_parse nv (JSON_stringify nt v) = Inr v"
proof -
  have "fuel_needed v \<le> Suc (length (JSON_stringify nt v))"
    using fuel_bound [OF assms] by simp
  with assms have "parse_value nv (Suc (length (JSON_stringify nt v))) (JSON_stringify nt v @ [])
      = Some (v, [])"
    by (intro round_trip_values) (simp_all add: delimited_def)
  then show ?thesis by (simp add: JSON_parse_def skip_ws_def)
qed

section \<open>Properties\<close>

text \<open>
  C1 (as amended). For every chain of fragment-adding calls in a valid category
  ordering whose element name does not start with \<open>.\<close>, \<open>[\<close> or \<open>:\<close> and whose
  pseudo-class names do not start with \<open>:\<close>, \<open>stringify()\<close> on the fresh builder
  returns exactly the concatenation of the prefixed fragments in call order, and
  leaves the builder in its initial state.
\<close>

theorem valid_chain_stringify:
  assumes "valid_order cs" and "list_all plain cs"
  shows "build cs = Inr (selector_text cs, cssSelectorBuilder)"
  unfolding build_def chain_valid [OF assms]
  by (simp add: stringify_def join_and_reset_def join_prefixed counterReset_def
      cssSelectorBuilder_def)

theorem valid_chain_stringify_witness:
  "valid_order [ELEMENT ''div'', ID ''main'', CLASS ''container'', CLASS ''editable'',
                ATTR ''title'', PSEUDO_CLASS ''hover'', PSEUDO_ELEMENT ''after'']
   \<and> list_all plain [ELEMENT ''div'', ID ''main'', CLASS ''container'', CLASS ''editable'',
                ATTR ''title'', PSEUDO_CLASS ''hover'', PSEUDO_ELEMENT ''after'']
   \<and> build [ELEMENT ''div'', ID ''main'', CLASS ''container'', CLASS ''editable'',
                ATTR ''title'', PSEUDO_CLASS ''hover'', PSEUDO_ELEMENT ''after'']
       = Inr (''div#main.container.editable[title]:hover::after'', cssSelectorBuilder)"
  using valid_chain_stringify
    [of "[ELEMENT ''div'', ID ''main'', CLASS ''container'', CLASS ''editable'',
          ATTR ''title'', PSEUDO_CLASS ''hover'', PSEUDO_ELEMENT ''after'']"]
  by (simp add: valid_order_def occurrences_def selector_text_def)

text \<open>
  As stated, for arbitrary values, C1 fails: an element name or a pseudo-class name
  that starts with a prefix character is mistaken for a later category, and the next
  call of a valid ordering throws.
\<close>

theorem valid_chain_counterexample:
  "valid_order [ELEMENT ''.a'', ID ''b'']
   \<and> build [ELEMENT ''.a'', ID ''b''] = Inl (OrderViolation, cssSelectorBuilder)
   \<and> valid_order [PSEUDO_CLASS '':a'', PSEUDO_CLASS ''b'']
   \<and> build [PSEUDO_CLASS '':a'', PSEUDO_CLASS ''b''] = Inl (OrderViolation, cssSelectorBuilder)"
  by code_simp

text \<open>
  C2. \<open>combine(a, c, b)\<close> followed by \<open>stringify()\<close> should return the text of \<open>a\<close>,
  the combinator between single spaces, and the text of \<open>b\<close>. On the two one-element
  selectors \<open>div\<close> and \<open>p\<close> the call of \<open>element\<close> for the second operand throws the
  duplicate error, although each operand alone stringifies; on two class selectors
  the combinator is dropped silently. Lemma \<open>combined_compound\<close> above gives the
  operands for which the result is as claimed.
\<close>

theorem combine_plain_elements_throws:
  "combined [ELEMENT ''div''] ''+'' [ELEMENT ''p'']
     = Inl (DuplicateViolation, cssSelectorBuilder)
   \<and> build [ELEMENT ''div''] = Inr (''div'', cssSelectorBuilder)
   \<and> build [ELEMENT ''p''] = Inr (''p'', cssSelectorBuilder)
   \<and> combined [CLASS ''a''] ''+'' [CLASS ''b''] = Inr (''.a.b'', cssSelectorBuilder)"
  by code_simp

text \<open>
  C3 (as amended). From any state of the builder: once an \<open>id\<close> or a
  \<open>pseudoElement\<close> call has succeeded, a further \<open>id\<close> (respectively
  \<open>pseudoElement\<close>) call throws the duplicate error and clears arrays and counters,
  whatever calls other than \<open>element\<close> succeeded in between; and an \<open>element\<close> call
  directly after an \<open>element\<close> call whose name is non-empty and does not start with
  one of \<open>. # : [\<close> or a space throws the duplicate error.
\<close>

theorem duplicate_rule:
  assumes "chain (pre @ c # mid) this0 = Inr this" and "occurrences 0 mid = 0"
  shows "(rank c = 1 \<longrightarrow>
            id_sel v this = Inl (DuplicateViolation, arrsReset (counterReset this)))
       \<and> (rank c = 5 \<longrightarrow>
            pseudoElement v this = Inl (DuplicateViolation, arrsReset (counterReset this)))
       \<and> (rank c = 0 \<and> mid = [] \<and> prefixed c \<noteq> []
              \<and> \<not> match_class ''.#:[ '' (Some (prefixed c)) \<longrightarrow>
            element v this = Inl (DuplicateViolation, arrsReset (counterReset this)))"
proof -
  from assms(1) obtain s1 s2 where pre: "chain pre this0 = Inr s1"
    and c: "invoke c s1 = Inr s2" and mid: "chain mid s2 = Inr this"
    by (auto simp: chain_append split: sum.splits)
  from chain_counts_mono [OF mid assms(2)]
  have mono: "idCount s2 \<le> idCount this" "psCount s2 \<le> psCount this" by auto
  have "id_sel v this = Inl (DuplicateViolation, arrsReset (counterReset this))"
    if "rank c = 1"
  proof -
    from invoke_counts_mono [OF c] that have "idCount s2 \<noteq> 0" by simp
    with mono have "idCount this \<noteq> 0" by simp
    then show ?thesis by (simp add: id_sel_def errorHandler_def)
  qed
  moreover
  have "pseudoElement v this = Inl (DuplicateViolation, arrsReset (counterReset this))"
    if "rank c = 5"
  proof -
    from invoke_counts_mono [OF c] that have "psCount s2 \<noteq> 0" by simp
    with mono have "psCount this \<noteq> 0" by simp
    then show ?thesis by (simp add: pseudoElement_def errorHandler_def)
  qed
  moreover
  have "element v this = Inl (DuplicateViolation, arrsReset (counterReset this))"
    if "mid = []" and "prefixed c \<noteq> []" and "\<not> match_class ''.#:[ '' (Some (prefixed c))"
  proof -
    from mid that(1) have "this = s2" by simp
    with invoke_lastEl [OF c] have "lastEl_of this = Some (prefixed c)" by simp
    with that(2,3) show ?thesis by (simp add: element_def errorHandler_def)
  qed
  ultimately show ?thesis by blast
qed

theorem duplicate_rule_witness:
  "chain ([ELEMENT ''div''] @ ID ''a'' # [CLASS ''b'']) cssSelectorBuilder
     = Inr \<lparr>arr = [Some ''div'', Some ''#a'', Some ''.b''], comb = [], isCombo = False,
            elCount = 1, idCount = 1, psCount = 0\<rparr>
   \<and> occurrences 0 [CLASS ''b''] = 0
   \<and> rank (ID ''a'') = 1
   \<and> id_sel ''c'' \<lparr>arr = [Some ''div'', Some ''#a'', Some ''.b''], comb = [],
            isCombo = False, elCount = 1, idCount = 1, psCount = 0\<rparr>
     = Inl (DuplicateViolation, cssSelectorBuilder)
   \<and> chain ([] @ PSEUDO_ELEMENT ''after'' # []) cssSelectorBuilder
     = Inr \<lparr>arr = [Some ''::after''], comb = [], isCombo = False,
            elCount = 0, idCount = 0, psCount = 1\<rparr>
   \<and> rank (PSEUDO_ELEMENT ''after'') = 5
   \<and> pseudoElement ''before'' \<lparr>arr = [Some ''::after''], comb = [], isCombo = False,
            elCount = 0, idCount = 0, psCount = 1\<rparr>
     = Inl (DuplicateViolation, cssSelectorBuilder)
   \<and> chain ([] @ ELEMENT ''table'' # []) cssSelectorBuilder
     = Inr \<lparr>arr = [Some ''table''], comb = [], isCombo = False,
            elCount = 1, idCount = 0, psCount = 0\<rparr>
   \<and> rank (ELEMENT ''table'') = 0 \<and> prefixed (ELEMENT ''table'') \<noteq> []
   \<and> \<not> match_class ''.#:[ '' (Some (prefixed (ELEMENT ''table'')))
   \<and> element ''div'' \<lparr>arr = [Some ''table''], comb = [], isCombo = False,
            elCount = 1, idCount = 0, psCount = 0\<rparr>
     = Inl (DuplicateViolation, cssSelectorBuilder)"
proof -
  let ?s1 = "\<lparr>arr = [Some ''div'', Some ''#a'', Some ''.b''], comb = [], isCombo = False,
            elCount = 1, idCount = 1, psCount = 0\<rparr>"
  let ?s2 = "\<lparr>arr = [Some ''::after''], comb = [], isCombo = False,
            elCount = 0, idCount = 0, psCount = 1\<rparr>"
  let ?s3 = "\<lparr>arr = [Some ''table''], comb = [], isCombo = False,
            elCount = 1, idCount = 0, psCount = 0\<rparr>"
  have r1: "chain ([ELEMENT ''div''] @ ID ''a'' # [CLASS ''b'']) cssSelectorBuilder = Inr ?s1"
    by code_simp
  have r2: "chain ([] @ PSEUDO_ELEMENT ''after'' # []) cssSelectorBuilder = Inr ?s2"
    by code_simp
  have r3: "chain ([] @ ELEMENT ''table'' # []) cssSelectorBuilder = Inr ?s3"
    by code_simp
  have o1: "occurrences 0 [CLASS ''b''] = 0" and o2: "occurrences 0 [] = 0"
    by (simp_all add: occurrences_def)
  have reset: "arrsReset (counterReset ?s1) = cssSelectorBuilder"
      "arrsReset (counterReset ?s2) = cssSelectorBuilder"
      "arrsReset (counterReset ?s3) = cssSelectorBuilder"
    by (simp_all add: arrsReset_def counterReset_def cssSelectorBuilder_def)
  from duplicate_rule [OF r1 o1, of "''c''"] duplicate_rule [OF r2 o2, of "''before''"]
    duplicate_rule [OF r3 o2, of "''div''"] r1 r2 r3 o1 reset
  show ?thesis by simp
qed

text \<open>
  As stated, regardless of the fragments in between, C3 fails: an \<open>element\<close> call
  after a prefixed fragment starts the next selector and resets the counters, so a
  second element, a second id and a second pseudo-element are all accepted. The
  same happens directly after an element whose name starts with a prefix character,
  and after an element with the empty name nothing is checked at all.
\<close>

theorem duplicate_counterexample:
  "chain [ELEMENT ''a'', ID ''i'', PSEUDO_ELEMENT ''x'',
          ELEMENT ''b'', ID ''j'', PSEUDO_ELEMENT ''y''] cssSelectorBuilder
     = Inr \<lparr>arr = [Some ''a'', Some ''#i'', Some ''::x'', None,
                   Some ''b'', Some ''#j'', Some ''::y''],
            comb = [], isCombo = True, elCount = 1, idCount = 1, psCount = 1\<rparr>
   \<and> chain [ELEMENT ''.x'', ELEMENT ''y''] cssSelectorBuilder
     = Inr \<lparr>arr = [Some ''.x'', None, Some ''y''],
            comb = [], isCombo = True, elCount = 1, idCount = 0, psCount = 0\<rparr>
   \<and> chain [ELEMENT [], ELEMENT ''y''] cssSelectorBuilder
     = Inr \<lparr>arr = [Some [], Some ''y''],
            comb = [], isCombo = False, elCount = 2, idCount = 0, psCount = 0\<rparr>"
  by code_simp

text \<open>
  C4 (as amended). Let the last successful call of a chain be \<open>l\<close> and let \<open>c\<close> be a
  call of an earlier category. If \<open>c\<close> is a class, attribute or pseudo-class call,
  it throws the order error. If \<open>c\<close> is an id call, it throws the order error when no
  id is counted in the current selector, and the duplicate error otherwise. If \<open>c\<close>
  is an element call, it throws the order error when no element is counted and \<open>l\<close>
  is not a class call. Every such throw clears arrays and counters.
\<close>

theorem order_rule:
  assumes "chain (pre @ [l]) this0 = Inr this" and "rank c < rank l"
  shows "(rank c = 0 \<and> elCount this = 0 \<and> rank l \<noteq> 2 \<longrightarrow>
            invoke c this = Inl (OrderViolation, arrsReset (counterReset this)))
       \<and> (rank c = 1 \<and> idCount this = 0 \<longrightarrow>
            invoke c this = Inl (OrderViolation, arrsReset (counterReset this)))
       \<and> (rank c = 1 \<and> idCount this \<noteq> 0 \<longrightarrow>
            invoke c this = Inl (DuplicateViolation, arrsReset (counterReset this)))
       \<and> (2 \<le> rank c \<longrightarrow>
            invoke c this = Inl (OrderViolation, arrsReset (counterReset this)))"
proof -
  have last: "lastEl_of this = Some (prefixed l)"
    using assms(1) by (rule chain_snoc_lastEl)
  show ?thesis
    using assms(2)
    by (cases c; cases l)
       (simp_all add: last element_def id_sel_def class_sel_def attr_def pseudoClass_def
          errorHandler_def Let_def)
qed

theorem order_rule_witness:
  "chain ([] @ [ID ''id'']) cssSelectorBuilder
     = Inr \<lparr>arr = [Some ''#id''], comb = [], isCombo = False,
            elCount = 0, idCount = 1, psCount = 0\<rparr>
   \<and> rank (ELEMENT ''div'') < rank (ID ''id'')
   \<and> invoke (ELEMENT ''div'') \<lparr>arr = [Some ''#id''], comb = [], isCombo = False,
            elCount = 0, idCount = 1, psCount = 0\<rparr>
     = Inl (OrderViolation, cssSelectorBuilder)
   \<and> chain ([] @ [CLASS ''main'']) cssSelectorBuilder
     = Inr \<lparr>arr = [Some ''.main''], comb = [], isCombo = False,
            elCount = 0, idCount = 0, psCount = 0\<rparr>
   \<and> rank (ID ''id'') < rank (CLASS ''main'')
   \<and> invoke (ID ''id'') \<lparr>arr = [Some ''.main''], comb = [], isCombo = False,
            elCount = 0, idCount = 0, psCount = 0\<rparr>
     = Inl (OrderViolation, cssSelectorBuilder)
   \<and> chain ([ID ''a''] @ [CLASS ''b'']) cssSelectorBuilder
     = Inr \<lparr>arr = [Some ''#a'', Some ''.b''], comb = [], isCombo = False,
            elCount = 0, idCount = 1, psCount = 0\<rparr>
   \<and> rank (ID ''c'') < rank (CLASS ''b'')
   \<and> invoke (ID ''c'') \<lparr>arr = [Some ''#a'', Some ''.b''], comb = [], isCombo = False,
            elCount = 0, idCount = 1, psCount = 0\<rparr>
     = Inl (DuplicateViolation, cssSelectorBuilder)
   \<and> chain ([] @ [ATTR ''href'']) cssSelectorBuilder
     = Inr \<lparr>arr = [Some ''[href]''], comb = [], isCombo = False,
            elCount = 0, idCount = 0, psCount = 0\<rparr>
   \<and> rank (CLASS ''download-link'') < rank (ATTR ''href'')
   \<and> invoke (CLASS ''download-link'') \<lparr>arr = [Some ''[href]''], comb = [],
            isCombo = False, elCount = 0, idCount = 0, psCount = 0\<rparr>
     = Inl (OrderViolation, cssSelectorBuilder)"
proof -
  let ?s1 = "\<lparr>arr = [Some ''#id''], comb = [], isCombo = False,
            elCount = 0, idCount = 1, psCount = 0\<rparr>"
  let ?s2 = "\<lparr>arr = [Some ''.main''], comb = [], isCombo = False,
            elCount = 0, idCount = 0, psCount = 0\<rparr>"
  let ?s3 = "\<lparr>arr = [Some ''#a'', Some ''.b''], comb = [], isCombo = False,
            elCount = 0, idCount = 1, psCount = 0\<rparr>"
  let ?s4 = "\<lparr>arr = [Some ''[href]''], comb = [], isCombo = False,
            elCount = 0, idCount = 0, psCount = 0\<rparr>"
  have r1: "chain ([] @ [ID ''id'']) cssSelectorBuilder = Inr ?s1" by code_simp
  have r2: "chain ([] @ [CLASS ''main'']) cssSelectorBuilder = Inr ?s2" by code_simp
  have r3: "chain ([ID ''a''] @ [CLASS ''b'']) cssSelectorBuilder = Inr ?s3" by code_simp
  have r4: "chain ([] @ [ATTR ''href'']) cssSelectorBuilder = Inr ?s4" by code_simp
  have k1: "rank (ELEMENT ''div'') < rank (ID ''id'')"
    and k2: "rank (ID ''id'') < rank (CLASS ''main'')"
    and k3: "rank (ID ''c'') < rank (CLASS ''b'')"
    and k4: "rank (CLASS ''download-link'') < rank (ATTR ''href'')"
    by simp_all
  have reset: "arrsReset (counterReset ?s1) = cssSelectorBuilder"
      "arrsReset (counterReset ?s2) = cssSelectorBuilder"
      "arrsReset (counterReset ?s3) = cssSelectorBuilder"
      "arrsReset (counterReset ?s4) = cssSelectorBuilder"
    by (simp_all add: arrsReset_def counterReset_def cssSelectorBuilder_def)
  from order_rule [OF r1 k1] order_rule [OF r2 k2] order_rule [OF r3 k3]
    order_rule [OF r4 k4] r1 r2 r3 r4 reset
  show ?thesis by simp
qed

text \<open>
  As stated, C4 fails: \<open>element\<close> after \<open>class\<close> is accepted (it starts the next
  selector), and so is \<open>element\<close> after any prefixed fragment once an element is
  counted; a second \<open>id\<close> after a class throws the duplicate error, not the order
  error.
\<close>

theorem order_counterexample:
  "chain [CLASS ''a'', ELEMENT ''div''] cssSelectorBuilder
     = Inr \<lparr>arr = [Some ''.a'', None, Some ''div''], comb = [],
            isCombo = True, elCount = 1, idCount = 0, psCount = 0\<rparr>
   \<and> chain [ELEMENT ''a'', ATTR ''x'', ELEMENT ''b''] cssSelectorBuilder
     = Inr \<lparr>arr = [Some ''a'', Some ''[x]'', None, Some ''b''], comb = [],
            isCombo = True, elCount = 1, idCount = 0, psCount = 0\<rparr>
   \<and> chain [ID ''a'', CLASS ''b'', ID ''c''] cssSelectorBuilder
     = Inl (DuplicateViolation, cssSelectorBuilder)"
  by code_simp

text \<open>
  C5. Every error should leave the shared builder clean. The errors thrown through
  \<open>errorHandler\<close> clear arrays and counters (lemma \<open>invoke_error_resets\<close>), but
  \<open>stringify\<close> throws on a count mismatch without resetting anything (lemma
  \<open>stringify_error_keeps\<close>): after \<open>element('a').class('b').element('c').stringify()\<close>
  the fragments and the composite flag are still there, and the independent chain
  \<open>id('x').stringify()\<close>, which yields \<open>#x\<close> on a clean builder, throws again.
\<close>

theorem composition_error_keeps_state:
  "chain [ELEMENT ''a'', CLASS ''b'', ELEMENT ''c''] cssSelectorBuilder
     = Inr \<lparr>arr = [Some ''a'', Some ''.b'', None, Some ''c''], comb = [],
            isCombo = True, elCount = 1, idCount = 0, psCount = 0\<rparr>
   \<and> stringify \<lparr>arr = [Some ''a'', Some ''.b'', None, Some ''c''], comb = [],
            isCombo = True, elCount = 1, idCount = 0, psCount = 0\<rparr>
     = Inl (CompositionError,
            \<lparr>arr = [Some ''a'', Some ''.b'', None, Some ''c''], comb = [],
             isCombo = True, elCount = 1, idCount = 0, psCount = 0\<rparr>)
   \<and> (case chain [ID ''x'']
              \<lparr>arr = [Some ''a'', Some ''.b'', None, Some ''c''], comb = [],
               isCombo = True, elCount = 1, idCount = 0, psCount = 0\<rparr>
       of Inl e \<Rightarrow> Inl e | Inr this \<Rightarrow> stringify this)
     = Inl (CompositionError,
            \<lparr>arr = [Some ''a'', Some ''.b'', None, Some ''c'', Some ''#x''], comb = [],
             isCombo = True, elCount = 1, idCount = 1, psCount = 0\<rparr>)
   \<and> build [ID ''x''] = Inr (''#x'', cssSelectorBuilder)"
  by code_simp

text \<open>
  C6. Nested combination should resolve innermost-first: \<open>x\<close> combined via \<open>c1\<close>
  with \<open>combine(y, c2, z)\<close> should stringify to the three selector texts with
  \<open>c1\<close> and \<open>c2\<close> in between. The order of resolution is right: in composite mode
  \<open>stringify\<close> writes the pending combinators into the placeholders in reverse
  order of their recording (lemma \<open>stringify_composite\<close>), and for operands that
  record their placeholders the result is as expected (lemma \<open>nested_compound\<close>).
  But placeholders are only recorded by \<open>element\<close> after a prefixed fragment: with
  three one-element selectors the second \<open>element\<close> call throws the duplicate
  error, although each operand alone stringifies; with operands that do not begin
  with \<open>element\<close> both combinators are dropped.
\<close>

theorem nested_plain_elements_throw:
  "nested [ELEMENT ''div''] ''+'' [ELEMENT ''table''] ''~'' [ELEMENT ''tr'']
     = Inl (DuplicateViolation, cssSelectorBuilder)
   \<and> build [ELEMENT ''div''] = Inr (''div'', cssSelectorBuilder)
   \<and> build [ELEMENT ''table''] = Inr (''table'', cssSelectorBuilder)
   \<and> build [ELEMENT ''tr''] = Inr (''tr'', cssSelectorBuilder)
   \<and> nested [ID ''a''] ''+'' [CLASS ''b''] ''~'' [CLASS ''c'']
     = Inr (''#a.b.c'', cssSelectorBuilder)"
  by code_simp

text \<open>
  C7 (as amended). For every JSON-serializable value \<open>v\<close> that is an object or an
  array and every \<open>proto\<close> that is an object or \<open>null\<close>,
  \<open>fromJSON(proto, getJSON(v))\<close> returns a value structurally equal to \<open>v\<close> with
  its prototype set to \<open>proto\<close>.
\<close>

theorem json_round_trip_with_prototype:
  assumes "json_ok nt nv v" and "is_object v" and "proto \<noteq> NotAnObject"
  shows "fromJSON (JSON_parse nv) proto (getJSON (JSON_stringify nt) v)
           = Inr (WithPrototype v proto)"
proof -
  have "fromJSON (JSON_parse nv) proto (getJSON (JSON_stringify nt) v)
      = Object_setPrototypeOf v proto"
    by (simp only: fromJSON_def getJSON_def JSON_round_trip [OF assms(1)] sum.case)
  with assms(2,3) show ?thesis
    by (cases v; cases proto) simp_all
qed

theorem json_round_trip_with_prototype_witness:
  "json_ok decimal_text decimal_value
     (JObject [(str ''width'', JNumber 10), (str ''height'', JNumber 20)])
   \<and> is_object (JObject [(str ''width'', JNumber (10::nat)), (str ''height'', JNumber 20)])
   \<and> ProtoObject () \<noteq> NotAnObject
   \<and> fromJSON (JSON_parse decimal_value) (ProtoObject ())
        (getJSON (JSON_stringify decimal_text)
           (JObject [(str ''width'', JNumber 10), (str ''height'', JNumber 20)]))
       = Inr (WithPrototype (JObject [(str ''width'', JNumber 10), (str ''height'', JNumber 20)])
                (ProtoObject ()))"
proof -
  have ok: "json_ok decimal_text decimal_value
     (JObject [(str ''width'', JNumber 10), (str ''height'', JNumber 20)])"
    by code_simp
  from json_round_trip_with_prototype [OF ok, of "ProtoObject ()"] ok
  show ?thesis by simp
qed

text \<open>
  As stated, for every JSON-serializable value and every shape, C7 fails: \<open>null\<close>
  is written as the text \<open>null\<close>, and setting the prototype of the parsed \<open>null\<close>
  throws a \<open>TypeError\<close>; a boolean comes back as the same boolean with nothing
  attached; and a shape that is neither an object nor \<open>null\<close> throws a \<open>TypeError\<close>.
\<close>

theorem json_round_trip_counterexample:
  "json_ok decimal_text decimal_value JNull
   \<and> getJSON (JSON_stringify decimal_text) JNull = str ''null''
   \<and> fromJSON (JSON_parse decimal_value) (ProtoObject ())
        (getJSON (JSON_stringify decimal_text) JNull) = Inl TypeError
   \<and> json_ok decimal_text decimal_value (JBool True)
   \<and> fromJSON (JSON_parse decimal_value) (ProtoObject ())
        (getJSON (JSON_stringify decimal_text) (JBool True)) = Inr (Primitive (JBool True))
   \<and> json_ok decimal_text decimal_value (JArray [])
   \<and> fromJSON (JSON_parse decimal_value) (NotAnObject :: unit prototype)
        (getJSON (JSON_stringify decimal_text) (JArray [])) = Inl TypeError"
  by code_simp

text \<open>
  C8. \<open>combine\<close> appends the combinator, surrounded by single spaces, to the pending
  combinators and changes no other field of the builder; the two selector arguments
  do not influence the result.
\<close>

theorem combine_frame:
  "combine selector1 combinator selector2 this
     = this\<lparr>comb := comb this @ [CHR '' '' # combinator @ [CHR '' '']]\<rparr>
   \<and> arr (combine selector1 combinator selector2 this) = arr this
   \<and> isCombo (combine selector1 combinator selector2 this) = isCombo this
   \<and> elCount (combine selector1 combinator selector2 this) = elCount this
   \<and> idCount (combine selector1 combinator selector2 this) = idCount this
   \<and> psCount (combine selector1 combinator selector2 this) = psCount this
   \<and> combine selector1 combinator selector2 this = combine other1 combinator other2 this"
  by (simp add: combine_def)

text \<open>
  C9 (as amended). \<open>fromJSON(proto, json)\<close> raises the parse error exactly when
  \<open>JSON.parse\<close> rejects \<open>json\<close>. For well-formed \<open>json\<close> it raises an error (a
  \<open>TypeError\<close>) exactly when the text denotes \<open>null\<close> or \<open>proto\<close> is neither an
  object nor \<open>null\<close>. The parser is a parameter of the statement.
\<close>

theorem fromJSON_errors:
  "(fromJSON host_parse proto json = Inl SyntaxError \<longleftrightarrow> host_parse json = Inl SyntaxError)
   \<and> (host_parse json = Inr v \<longrightarrow>
        ((\<exists>e. fromJSON host_parse proto json = Inl e) \<longleftrightarrow> v = JNull \<or> proto = NotAnObject)
        \<and> (fromJSON host_parse proto json = Inl TypeError \<longleftrightarrow> v = JNull \<or> proto = NotAnObject))"
proof -
  have set: "Object_setPrototypeOf w proto \<noteq> Inl SyntaxError" for w :: "'a json"
    by (cases "(w, proto)" rule: Object_setPrototypeOf.cases) simp_all
  have raises: "(\<exists>e. Object_setPrototypeOf w proto = Inl e) \<longleftrightarrow> w = JNull \<or> proto = NotAnObject"
    and type: "Object_setPrototypeOf w proto = Inl TypeError \<longleftrightarrow> w = JNull \<or> proto = NotAnObject"
    for w :: "'a json"
    by (cases "(w, proto)" rule: Object_setPrototypeOf.cases; simp)+
  show ?thesis
    using set raises type by (auto simp: fromJSON_def split: sum.splits)
qed

theorem fromJSON_errors_witness:
  "JSON_parse decimal_value (str ''[1,2,3]'') = Inr (JArray [JNumber 1, JNumber 2, JNumber 3])
   \<and> fromJSON (JSON_parse decimal_value) (ProtoObject ()) (str ''[1,2,3]'')
       = Inr (WithPrototype (JArray [JNumber 1, JNumber 2, JNumber 3]) (ProtoObject ()))
   \<and> JSON_parse decimal_value (str ''[1,2,'') = Inl SyntaxError
   \<and> fromJSON (JSON_parse decimal_value) (ProtoObject ()) (str ''[1,2,'') = Inl SyntaxError"
proof -
  have p1: "JSON_parse decimal_value (str ''[1,2,3]'') = Inr (JArray [JNumber 1, JNumber 2, JNumber 3])"
    and p2: "JSON_parse decimal_value (str ''[1,2,'') = Inl SyntaxError"
    by code_simp+
  from fromJSON_errors [of "JSON_parse decimal_value" "ProtoObject ()" "str ''[1,2,3]''"
      "JArray [JNumber 1, JNumber 2, JNumber 3]"]
    fromJSON_errors [of "JSON_parse decimal_value" "ProtoObject ()" "str ''[1,2,''" JNull]
    p1 p2
  show ?thesis by (auto simp: fromJSON_def)
qed

text \<open>
  As stated, C9 fails in its second half: the text \<open>null\<close> is well-formed, and
  \<open>fromJSON\<close> raises a \<open>TypeError\<close> on it.
\<close>

theorem fromJSON_counterexample:
  "JSON_parse decimal_value (str ''null'') = Inr JNull
   \<and> fromJSON (JSON_parse decimal_value) (ProtoObject ()) (str ''null'') = Inl TypeError"
  by code_simp

text \<open>
  C10. A rectangle built from \<open>w\<close> and \<open>h\<close> has width \<open>w\<close>, height \<open>h\<close> and area
  \<open>w * h\<close>, whatever the number type; \<open>Rectangle 10 20\<close> has area \<open>200\<close>.
\<close>

theorem Rectangle_fields_and_area:
  "width (Rectangle w h) = w \<and> height (Rectangle w h) = h
     \<and> getArea (Rectangle w h) = w * h
     \<and> getArea (Rectangle (10::int) 20) = 200"
  by (simp add: Rectangle_def getArea_def)

end
